theory Spec2Isabelle
  imports Main "HOL-Library.AList"
begin

section \<open>Python string primitives used by the program\<close>

text \<open>
  Texts are modelled as \<open>string\<close> (lists of 8-bit characters).  The character classes
  below are those of Python's \<open>str\<close> methods restricted to that range.
\<close>

text \<open>The line boundaries recognised by \<open>str.splitlines\<close>.\<close>

definition is_linebreak :: "char \<Rightarrow> bool" where
  "is_linebreak c =
     (c = CHR 0x0A \<or> c = CHR 0x0B \<or> c = CHR 0x0C \<or> c = CHR 0x0D \<or>
      c = CHR 0x1C \<or> c = CHR 0x1D \<or> c = CHR 0x1E \<or> c = CHR 0x85)"

text \<open>The characters for which \<open>str.isspace\<close> holds; also the class \<open>\s\<close> of \<open>re\<close>.\<close>

definition is_space :: "char \<Rightarrow> bool" where
  "is_space c =
     (c = CHR 0x09 \<or> c = CHR 0x0A \<or> c = CHR 0x0B \<or> c = CHR 0x0C \<or> c = CHR 0x0D \<or>
      c = CHR 0x1C \<or> c = CHR 0x1D \<or> c = CHR 0x1E \<or> c = CHR 0x1F \<or>
      c = CHR 0x20 \<or> c = CHR 0x85 \<or> c = CHR 0xA0)"

text \<open>The whitespace of \<open>bytes.strip\<close> (ASCII only).\<close>

definition is_ascii_space :: "char \<Rightarrow> bool" where
  "is_ascii_space c =
     (c = CHR 0x09 \<or> c = CHR 0x0A \<or> c = CHR 0x0B \<or> c = CHR 0x0C \<or> c = CHR 0x0D \<or>
      c = CHR 0x20)"

definition nl :: string where
  "nl = [CHR 0x0A]"

text \<open>
  \<open>str.splitlines()\<close>: the text is cut at every line boundary, \<open>\r\n\<close> counting as
  one; the boundaries are dropped and a final boundary opens no further line.  The first
  argument is the line read so far.
\<close>

fun splitlines_from :: "string \<Rightarrow> string \<Rightarrow> string list" where
  "splitlines_from cur [] = (if cur = [] then [] else [cur])"
| "splitlines_from cur [c] = (if is_linebreak c then [cur] else [cur @ [c]])"
| "splitlines_from cur (c # d # cs) =
     (if c = CHR 0x0D \<and> d = CHR 0x0A then cur # splitlines_from [] cs
      else if is_linebreak c then cur # splitlines_from [] (d # cs)
      else splitlines_from (cur @ [c]) (d # cs))"

definition splitlines :: "string \<Rightarrow> string list" where
  "splitlines s = splitlines_from [] s"

text \<open>\<open>str.split(sep)\<close> for a separator of one character: empty fields are kept.\<close>

fun split_on :: "char \<Rightarrow> string \<Rightarrow> string list" where
  "split_on sep [] = [[]]"
| "split_on sep (c # cs) =
     (if c = sep then [] # split_on sep cs
      else (case split_on sep cs of [] \<Rightarrow> [[c]] | f # fs \<Rightarrow> (c # f) # fs))"

text \<open>\<open>sep.join(xs)\<close>.\<close>

fun join :: "string \<Rightarrow> string list \<Rightarrow> string" where
  "join sep [] = []"
| "join sep [x] = x"
| "join sep (x # y # ys) = x @ sep @ join sep (y # ys)"

definition startswith :: "string \<Rightarrow> string \<Rightarrow> bool" where
  "startswith s p = (take (length p) s = p)"

text \<open>\<open>str.strip()\<close>, \<open>str.rstrip()\<close> and \<open>bytes.strip()\<close>.\<close>

definition rstrip :: "string \<Rightarrow> string" where
  "rstrip s = rev (dropWhile is_space (rev s))"

definition strip :: "string \<Rightarrow> string" where
  "strip s = rstrip (dropWhile is_space s)"

definition bytes_strip :: "string \<Rightarrow> string" where
  "bytes_strip s = rev (dropWhile is_ascii_space (rev (dropWhile is_ascii_space s)))"

text \<open>
  \<open>repr\<close> of a \<open>bytes\<close> value: \<open>b\<close>, a quote, the bytes and the quote again.  The
  quote is the double quote when the bytes hold a single quote and no double quote, else the
  single quote.  The quote and the backslash are written after a backslash, tab, newline
  and carriage return as \<open>\t\<close>, \<open>\n\<close>, \<open>\r\<close>, any other byte outside the printable
  ASCII range as \<open>\x\<close> and two lower-case hexadecimal digits.
\<close>

definition hex_digit :: "nat \<Rightarrow> char" where
  "hex_digit n = (if n < 10 then char_of (48 + n) else char_of (87 + n))"

definition repr_byte :: "char \<Rightarrow> char \<Rightarrow> string" where
  "repr_byte quote c =
     (let n = (of_char c :: nat) in
      if c = quote \<or> c = CHR 0x5C then [CHR 0x5C, c]
      else if c = CHR 0x09 then [CHR 0x5C, CHR ''t'']
      else if c = CHR 0x0A then [CHR 0x5C, CHR ''n'']
      else if c = CHR 0x0D then [CHR 0x5C, CHR ''r'']
      else if n < 32 \<or> 127 \<le> n then [CHR 0x5C, CHR ''x'', hex_digit (n div 16), hex_digit (n mod 16)]
      else [c])"

definition bytes_repr :: "string \<Rightarrow> string" where
  "bytes_repr b =
     (let quote = (if CHR 0x27 \<in> set b \<and> CHR 0x22 \<notin> set b then CHR 0x22 else CHR 0x27)
      in CHR ''b'' # quote # concat (map (repr_byte quote) b) @ [quote])"

section \<open>\<open>split_diff_by_file\<close>\<close>

text \<open>
  The dictionary \<open>file_diffs\<close> is an association list in insertion order; a Python
  \<open>dict\<close> assignment is \<open>AList.update\<close>: a new key goes to the end, an existing key
  keeps its place and takes the new value.
\<close>

type_synonym file_diffs = "(string \<times> string) list"

text \<open>The loop state: \<open>file_diffs\<close>, \<open>current_file\<close> (\<open>None\<close> at first) and \<open>lines\<close>.\<close>

type_synonym split_state = "file_diffs \<times> string option \<times> string list"

definition is_header :: "string \<Rightarrow> bool" where
  "is_header line = startswith line ''diff --git''"

definition parts_of :: "string \<Rightarrow> string list" where
  "parts_of line = split_on CHR '' '' line"

text \<open>\<open>parts[2][2:]\<close>, read only where \<open>len(parts) >= 3\<close>.\<close>

definition extract_path :: "string \<Rightarrow> string" where
  "extract_path line = drop 2 (parts_of line ! 2)"

text \<open>\<open>if current_file and lines: file_diffs[current_file] = "\n".join(lines)\<close>.\<close>

definition save_segment :: "file_diffs \<Rightarrow> string option \<Rightarrow> string list \<Rightarrow> file_diffs" where
  "save_segment fd cf ls =
     (case cf of
        None \<Rightarrow> fd
      | Some f \<Rightarrow> if f \<noteq> [] \<and> ls \<noteq> [] then AList.update f (join nl ls) fd else fd)"

text \<open>One iteration of \<open>for line in diff_text.splitlines()\<close>.\<close>

fun step :: "split_state \<Rightarrow> string \<Rightarrow> split_state" where
  "step (fd, cf, ls) line =
     (if is_header line then
        (save_segment fd cf ls,
         (if 3 \<le> length (parts_of line) then Some (extract_path line) else cf),
         [line])
      else (fd, cf, ls @ [line]))"

fun finish :: "split_state \<Rightarrow> file_diffs" where
  "finish (fd, cf, ls) = save_segment fd cf ls"

definition split_lines :: "string list \<Rightarrow> file_diffs" where
  "split_lines xs = finish (foldl step ([], None, []) xs)"

definition split_diff_by_file :: "string \<Rightarrow> file_diffs" where
  "split_diff_by_file diff_text = split_lines (splitlines diff_text)"

text \<open>
  A header line from which the loop takes a new file name, and the keys a list of lines
  gives rise to: the non-empty names taken from such headers.
\<close>

definition wf_header :: "string \<Rightarrow> bool" where
  "wf_header line = (is_header line \<and> 3 \<le> length (parts_of line))"

definition key_paths :: "string list \<Rightarrow> string list" where
  "key_paths xs = remdups (filter (\<lambda>p. p \<noteq> []) (map extract_path (filter wf_header xs)))"

section \<open>\<open>preprocess_diff\<close>\<close>

text \<open>
  One iteration of \<open>for filename, file_diff in file_diffs.items()\<close>; the state is
  \<open>filtered_file_diffs\<close> and \<open>append_note\<close>.
\<close>

fun filter_step :: "string list \<Rightarrow> file_diffs \<times> bool \<Rightarrow> string \<times> string \<Rightarrow> file_diffs \<times> bool" where
  "filter_step distracting_files (filtered, append_note) (filename, file_diff) =
     (if filename \<in> set distracting_files then (filtered, True)
      else (AList.update filename file_diff filtered, append_note))"

definition default_distracting :: "string list" where
  "default_distracting = [''pyproject.toml'', ''uv.lock'']"

text \<open>\<open>if distracting_files is None: distracting_files = ["pyproject.toml", "uv.lock"]\<close>.\<close>

definition or_default :: "string list option \<Rightarrow> string list" where
  "or_default distracting_files =
     (case distracting_files of None \<Rightarrow> default_distracting | Some d \<Rightarrow> d)"

definition preprocess_diff :: "string \<Rightarrow> string list option \<Rightarrow> string \<times> bool" where
  "preprocess_diff diff_text distracting_files =
     (let r = foldl (filter_step (or_default distracting_files)) ([], False)
                (split_diff_by_file diff_text)
      in (join nl (map snd (fst r)), snd r))"

section \<open>Cleaning the model's response\<close>

text \<open>Case folding of \<open>re.IGNORECASE\<close> on the letters of the pattern: A-Z and a-z.\<close>

definition lower :: "char \<Rightarrow> char" where
  "lower c = (let n = (of_char c :: nat) in if 65 \<le> n \<and> n \<le> 90 then char_of (n + 32) else c)"

definition startswith_ci :: "string \<Rightarrow> string \<Rightarrow> bool" where
  "startswith_ci s p = (map lower (take (length p) s) = map lower p)"

definition commit_prefix :: string where
  "commit_prefix = ''**Commit Message:**''"

definition note_clause :: string where
  "note_clause = '' and updated documentation accordingly''"

text \<open>
  \<open>re.sub(r'^\s*\*\*Commit Message:\*\*\s*', '', response, flags=re.IGNORECASE)\<close>:
  the pattern is anchored at the start of the string, so it matches at most once; the
  first \<open>\s*\<close> takes all leading whitespace (the literal starts with \<open>*\<close>, which is
  no whitespace), then the literal must follow, then the last \<open>\s*\<close> takes all
  whitespace after it.  Without a match the string is returned as it is.
\<close>

definition strip_commit_prefix :: "string \<Rightarrow> string" where
  "strip_commit_prefix response =
     (let s1 = dropWhile is_space response
      in if startswith_ci s1 commit_prefix
         then dropWhile is_space (drop (length commit_prefix) s1)
         else response)"

section \<open>The server manager \<open>OllamaServer\<close> and its environment\<close>

datatype error = RuntimeError string | InferenceError string

text \<open>What the program does to the outside, in order.\<close>

datatype event =
    Probe bool
  | Print string
  | Spawn nat
  | Sleep nat
  | Terminate nat
  | Wait nat
  | Pgrep
  | CallStop
  | Generate string
  | ReadDiff
  | Clipboard string

text \<open>
  The environment.  \<open>liveness w i\<close> is the answer of the \<open>i\<close>-th health check
  (\<open>requests.get\<close> gave status 200) and the time that check takes; \<open>now\<close> is the clock of
  \<open>time.time()\<close>; times are in milliseconds.  \<open>pgrep\<close> is the output of
  \<open>pgrep -f "ollama serve"\<close>, \<open>None\<close> when it exits non-zero
  (\<open>CalledProcessError\<close>).  \<open>trace\<close> records the events so far.
\<close>

record world =
  liveness :: "nat \<Rightarrow> bool \<times> nat"
  probes :: nat
  now :: nat
  next_pid :: nat
  pgrep :: "string option"
  trace :: "event list"

text \<open>The fields of an \<open>OllamaServer\<close>; \<open>proc\<close> is the \<open>Popen\<close> handle, by its pid.\<close>

record server =
  model_name :: string
  proc :: "nat option"

definition emit :: "event \<Rightarrow> world \<Rightarrow> world" where
  "emit e w = w\<lparr>trace := trace w @ [e]\<rparr>"

definition new_server :: "string \<Rightarrow> server" where
  "new_server name = \<lparr>model_name = name, proc = None\<rparr>"

text \<open>\<open>get_pid\<close>: \<open>output.strip()\<close>, or \<open>False\<close> (here \<open>None\<close>).\<close>

definition get_pid :: "world \<Rightarrow> string option \<times> world" where
  "get_pid w = (map_option bytes_strip (pgrep w), emit Pgrep w)"

text \<open>Python's truth value of what \<open>get_pid\<close> returns: \<open>False\<close> and \<open>b''\<close> are false.\<close>

definition pid_truthy :: "string option \<Rightarrow> bool" where
  "pid_truthy pid = (case pid of None \<Rightarrow> False | Some b \<Rightarrow> b \<noteq> [])"

definition is_running :: "world \<Rightarrow> bool \<times> world" where
  "is_running w =
     (let r = liveness w (probes w)
      in (fst r, emit (Probe (fst r)) (w\<lparr>probes := Suc (probes w), now := now w + snd r\<rparr>)))"

definition sleep :: "nat \<Rightarrow> world \<Rightarrow> world" where
  "sleep ms w = emit (Sleep ms) (w\<lparr>now := now w + ms\<rparr>)"

definition popen :: "world \<Rightarrow> nat \<times> world" where
  "popen w = (next_pid w, emit (Spawn (next_pid w)) (w\<lparr>next_pid := Suc (next_pid w)\<rparr>))"

definition timeout_ms :: nat where
  "timeout_ms = 5000"

definition startup_error :: error where
  "startup_error = RuntimeError ''Failed to start Ollama server in time.''"

lemma now_is_running: "now w \<le> now (snd (is_running w))"
  by (simp add: is_running_def emit_def Let_def)

text \<open>
  The loop of \<open>start\<close>:
  \<open>while not self.is_running(): if time.time() - start_time > timeout: raise ...; time.sleep(0.5)\<close>.
\<close>

function wait_loop :: "nat \<Rightarrow> world \<Rightarrow> (error + unit) \<times> world" where
  "wait_loop start_time w =
     (let r = is_running w in
      if fst r then (Inr (), snd r)
      else if now (snd r) - start_time > timeout_ms then (Inl startup_error, snd r)
      else wait_loop start_time (sleep 500 (snd r)))"
  by pat_completeness auto
termination
proof (relation "measure (\<lambda>(st, w). Suc timeout_ms + st - now w)")
  show "wf (measure (\<lambda>(st, w). Suc timeout_ms + st - now w))" by simp
next
  fix start_time w r
  assume r: "r = is_running w" and "\<not> timeout_ms < now (snd r) - start_time"
  then have le: "now (snd r) \<le> start_time + timeout_ms" by simp
  have "now w \<le> now (snd r)" using r now_is_running by simp
  moreover have "now (sleep 500 (snd r)) = now (snd r) + 500"
    by (simp add: sleep_def emit_def)
  ultimately show "((start_time, sleep 500 (snd r)), (start_time, w))
      \<in> measure (\<lambda>(st, w). Suc timeout_ms + st - now w)"
    using le by simp
qed

declare wait_loop.simps [simp del]

definition start :: "server \<Rightarrow> world \<Rightarrow> (error + unit) \<times> server \<times> world" where
  "start s w =
     (let r = is_running w in
      if fst r then (Inr (), s, snd r)
      else
        let w1 = emit (Print (''Starting Ollama server for model: '' @ model_name s)) (snd r);
            p = popen w1;
            s' = s\<lparr>proc := Some (fst p)\<rparr>;
            start_time = now (snd p);
            res = wait_loop start_time (snd p)
        in (fst res, s', snd res))"

definition stop :: "server \<Rightarrow> world \<Rightarrow> server \<times> world" where
  "stop s w =
     (let w1 = emit CallStop w in
      case proc s of
        None \<Rightarrow> (s, w1)
      | Some p \<Rightarrow> (s\<lparr>proc := None\<rparr>, emit (Wait p) (emit (Terminate p) w1)))"

section \<open>\<open>generate_commit_message\<close> and the entry point\<close>

text \<open>
  \<open>llm\<close> stands for \<open>llm.generate\<close>: it returns the response or raises.  The \<open>try\<close>
  body gives \<open>result\<close>; the \<open>finally\<close> block runs after it in either case.  The
  f-string of the message formats the bytes \<open>pid\<close> by their \<open>repr\<close>.
\<close>

definition generate_commit_message ::
    "server \<Rightarrow> (string \<Rightarrow> error + string) \<Rightarrow> string \<Rightarrow> world \<Rightarrow> (error + string) \<times> server \<times> world" where
  "generate_commit_message s llm diff_text w =
     (let g = get_pid w;
          pid = fst g;
          pre = preprocess_diff diff_text None;
          w1 = emit (Generate (fst pre)) (snd g);
          result =
            (case llm (fst pre) of
               Inl e \<Rightarrow> Inl e
             | Inr response \<Rightarrow>
                 Inr (strip_commit_prefix (if snd pre then response @ note_clause else response)))
      in if pid_truthy pid then
           (let st = stop s (emit (Print (''Killing Ollama process '' @ bytes_repr (the pid))) w1)
            in (result, fst st, snd st))
         else (result, s, w1))"

datatype outcome = Completed | Exited nat | Uncaught error

definition the_model :: string where
  "the_model = ''hf.co/bartowski/Meta-Llama-3.1-8B-Instruct-GGUF:Q4_K_M''"

text \<open>The \<open>__main__\<close> block; \<open>diff_text\<close> is what the file or standard input holds.\<close>

definition main :: "string \<Rightarrow> (string \<Rightarrow> error + string) \<Rightarrow> world \<Rightarrow> outcome \<times> server \<times> world" where
  "main diff_text llm w =
     (let st = start (new_server the_model) w in
      case fst st of
        Inl e \<Rightarrow> (Uncaught e, snd st)
      | Inr _ \<Rightarrow>
          let s1 = fst (snd st);
              w1 = emit ReadDiff (snd (snd st))
          in if strip diff_text = [] then (Exited 1, s1, emit (Print ''No diff provided!'') w1)
             else
               let g = generate_commit_message s1 llm diff_text w1 in
               case fst g of
                 Inl e \<Rightarrow> (Uncaught e, snd g)
               | Inr commit_msg \<Rightarrow>
                   let w2 = emit (Print (''Generated Commit Message: '' @ commit_msg)) (snd (snd g));
                       w3 = emit (Clipboard commit_msg) w2;
                       fin = stop (fst (snd g)) w3
                   in (Completed, fin))"

text \<open>The events of polling: a health check or a sleep.\<close>

fun is_poll_event :: "event \<Rightarrow> bool" where
  "is_poll_event (Probe b) = True"
| "is_poll_event (Sleep n) = True"
| "is_poll_event _ = False"

text \<open>
  What polling looks like: failed health checks, each followed by a sleep of 500 ms, up
  to a last health check.
\<close>

fun poll_pattern :: "event list \<Rightarrow> bool" where
  "poll_pattern [Probe b] = True"
| "poll_pattern (Probe b # Sleep ms # rest) = (\<not> b \<and> ms = 500 \<and> poll_pattern rest)"
| "poll_pattern _ = False"

text \<open>
  The time that has passed at the end of the \<open>k\<close>-th health check of the loop (counted
  from 0) when the checks before it failed and the loop went on: \<open>base\<close> has passed
  when the loop starts, the checks of the loop are the checks \<open>n\<close>, \<open>n + 1\<close>, ... of
  the environment, and the loop sleeps 500 ms between two checks.
\<close>

fun poll_elapsed :: "(nat \<Rightarrow> bool \<times> nat) \<Rightarrow> nat \<Rightarrow> nat \<Rightarrow> nat \<Rightarrow> nat" where
  "poll_elapsed lv n base 0 = base + snd (lv n)"
| "poll_elapsed lv n base (Suc k) = poll_elapsed lv n base k + 500 + snd (lv (n + Suc k))"

text \<open>The environment right after \<open>start\<close> has spawned the server.\<close>

definition spawned :: "server \<Rightarrow> world \<Rightarrow> world" where
  "spawned s w = snd (popen (emit (Print (''Starting Ollama server for model: '' @ model_name s))
     (snd (is_running w))))"

text \<open>
  For the proofs: the segments as lists of lines under their keys, \<open>joined\<close> into the
  dictionary of texts; a segment as the loop builds it (a header line first, no header
  line after it, under the name that header gives when it gives one); and what the loop
  state holds between two lines.  \<open>Q\<close> is any property of the lines read.
\<close>

definition joined :: "(string \<times> string list) list \<Rightarrow> file_diffs" where
  "joined cs = map (\<lambda>kc. (fst kc, join nl (snd kc))) cs"

definition chunk_ok :: "(string \<Rightarrow> bool) \<Rightarrow> string \<times> string list \<Rightarrow> bool" where
  "chunk_ok Q kc =
     (fst kc \<noteq> [] \<and> snd kc \<noteq> [] \<and> is_header (hd (snd kc)) \<and>
      (wf_header (hd (snd kc)) \<longrightarrow> extract_path (hd (snd kc)) = fst kc) \<and>
      (\<forall>l\<in>set (tl (snd kc)). \<not> is_header l) \<and> (\<forall>l\<in>set (snd kc). Q l))"

definition state_ok :: "(string \<Rightarrow> bool) \<Rightarrow> string option \<Rightarrow> string list \<Rightarrow> bool" where
  "state_ok Q cf ls = (case cf of None \<Rightarrow> True | Some k \<Rightarrow> k = [] \<or> chunk_ok Q (k, ls))"

text \<open>Lines without line boundaries, and lines whose headers all give a name.\<close>

definition line_ok :: "string \<Rightarrow> bool" where
  "line_ok l = (\<forall>c\<in>set l. \<not> is_linebreak c)"

definition line_wf :: "string \<Rightarrow> bool" where
  "line_wf l = (line_ok l \<and> (is_header l \<longrightarrow> wf_header l))"

section \<open>Concrete environments and inputs\<close>

text \<open>A host where the server never answers: every health check fails after one second.\<close>

definition dead_world :: world where
  "dead_world = \<lparr>liveness = (\<lambda>i. (False, 1000)), probes = 0, now = 0, next_pid = 1,
     pgrep = None, trace = []\<rparr>"

text \<open>A host where a server already answers and \<open>pgrep\<close> finds it.\<close>

definition live_world :: world where
  "live_world = \<lparr>liveness = (\<lambda>i. (True, 20)), probes = 0, now = 0, next_pid = 1,
     pgrep = Some (''4242'' @ nl), trace = []\<rparr>"

text \<open>
  A host where the server comes up late: the check in the loop that ends 4.9 s after the
  spawn fails, the next one, 0.5 s later, succeeds after 0.1 s.
\<close>

definition slow_world :: world where
  "slow_world = \<lparr>liveness = (\<lambda>i. if i = 2 then (True, 100) else (False, if i = 1 then 4900 else 0)),
     probes = 0, now = 0, next_pid = 1, pgrep = None, trace = []\<rparr>"

text \<open>
  A host where the server the instance has spawned as process 7 answers, and \<open>pgrep\<close>
  finds that process.
\<close>

definition owned_world :: world where
  "owned_world = \<lparr>liveness = (\<lambda>i. (True, 20)), probes = 1, now = 20, next_pid = 8,
     pgrep = Some (''7'' @ nl), trace = []\<rparr>"

text \<open>An instance that has spawned process 7.\<close>

definition owning_server :: server where
  "owning_server = \<lparr>model_name = the_model, proc = Some 7\<rparr>"

text \<open>A rename: the header names \<open>old.py\<close> before the change and \<open>new.py\<close> after it.\<close>

definition rename_diff :: string where
  "rename_diff = ''diff --git a/old.py b/new.py'' @ nl @ ''+x''"

text \<open>Diffs with a malformed header, a repeated file, and a header with an empty name.\<close>

definition malformed_first_diff :: string where
  "malformed_first_diff =
     ''junk'' @ nl @ ''diff --git'' @ nl @ ''+x'' @ nl @ ''diff --git a/f b/f'' @ nl @ ''+y''"

definition repeated_diff :: string where
  "repeated_diff =
     ''diff --git a/f b/f'' @ nl @ ''+1'' @ nl @ ''diff --git a/g b/g'' @ nl @ ''+2'' @ nl @
     ''diff --git a/f b/f'' @ nl @ ''+3''"

definition overwritten_diff :: string where
  "overwritten_diff =
     ''diff --git a/f b/f'' @ nl @ ''+1'' @ nl @ ''diff --git a/f b/f'' @ nl @ ''+2'' @ nl @
     ''diff --git'' @ nl @ ''+3''"

definition empty_path_diff :: string where
  "empty_path_diff = ''diff --git a/ b/'' @ nl @ ''diff --git a/ b/''"

text \<open>A diff of two files that ends with a newline, and a diff with a line before its first header.\<close>

definition two_file_diff :: string where
  "two_file_diff =
     ''diff --git a/f b/f'' @ nl @ ''+1'' @ nl @ ''diff --git a/g b/g'' @ nl @ ''+2'' @ nl"

definition preamble_diff :: string where
  "preamble_diff = ''commit 1f3a'' @ nl @ ''diff --git a/f b/f'' @ nl @ ''+1''"

text \<open>A diff whose last header is malformed, and a diff with a noise file between two others.\<close>

definition malformed_tail_diff :: string where
  "malformed_tail_diff = ''diff --git a/f b/f'' @ nl @ ''diff --git'' @ nl @ ''+3''"

definition noise_diff :: string where
  "noise_diff =
     ''diff --git a/a.py b/a.py'' @ nl @ ''+1'' @ nl @
     ''diff --git a/uv.lock b/uv.lock'' @ nl @ ''+2'' @ nl @
     ''diff --git a/b.py b/b.py'' @ nl @ ''+3''"

section \<open>Facts about the environment and the polling loop\<close>

lemma trace_emit [simp]: "trace (emit e w) = trace w @ [e]"
  by (simp add: emit_def)

lemma emit_fields [simp]:
  "now (emit e w) = now w" "probes (emit e w) = probes w" "next_pid (emit e w) = next_pid w"
  "pgrep (emit e w) = pgrep w" "liveness (emit e w) = liveness w"
  by (simp_all add: emit_def)

lemma trace_is_running: "trace (snd (is_running w)) = trace w @ [Probe (fst (is_running w))]"
  by (simp add: is_running_def Let_def)

lemma wait_loop_trace:
  "\<exists>evs. trace (snd (wait_loop st w)) = trace w @ evs \<and> list_all is_poll_event evs"
proof (induction st w rule: wait_loop.induct)
  case (1 st w)
  show ?case
  proof (cases "fst (is_running w) \<or> timeout_ms < now (snd (is_running w)) - st")
    case True
    then have "trace (snd (wait_loop st w)) = trace w @ [Probe (fst (is_running w))]"
      by (subst wait_loop.simps) (auto simp: Let_def trace_is_running)
    then show ?thesis by simp
  next
    case False
    then have eq: "wait_loop st w = wait_loop st (sleep 500 (snd (is_running w)))"
      by (subst wait_loop.simps) (simp add: Let_def)
    from False 1 [OF refl] obtain evs where
      "trace (snd (wait_loop st (sleep 500 (snd (is_running w))))) =
         trace (sleep 500 (snd (is_running w))) @ evs" "list_all is_poll_event evs"
      by auto
    then show ?thesis using eq False
      by (simp add: sleep_def trace_is_running)
  qed
qed

lemma wait_loop_result:
  "fst (wait_loop st w) = Inr () \<or> fst (wait_loop st w) = Inl startup_error"
proof (induction st w rule: wait_loop.induct)
  case (1 st w)
  show ?case using 1 [OF refl]
    by (subst (1 2) wait_loop.simps) (auto simp: Let_def)
qed

lemma is_running_fields [simp]:
  "probes (snd (is_running w)) = Suc (probes w)"
  "liveness (snd (is_running w)) = liveness w"
  "next_pid (snd (is_running w)) = next_pid w"
  "fst (is_running w) = fst (liveness w (probes w))"
  by (simp_all add: is_running_def Let_def)

lemma sleep_fields [simp]:
  "probes (sleep ms w) = probes w" "liveness (sleep ms w) = liveness w"
  "trace (sleep ms w) = trace w @ [Sleep ms]" "now (sleep ms w) = now w + ms"
  by (simp_all add: sleep_def)

lemma wait_loop_cases:
  "wait_loop st w =
     (if fst (is_running w) then (Inr (), snd (is_running w))
      else if timeout_ms < now (snd (is_running w)) - st then (Inl startup_error, snd (is_running w))
      else wait_loop st (sleep 500 (snd (is_running w))))"
  by (subst wait_loop.simps) (simp add: Let_def)

lemma wait_loop_pattern:
  "\<exists>evs. trace (snd (wait_loop st w)) = trace w @ evs \<and> poll_pattern evs \<and>
     (fst (wait_loop st w) = Inl startup_error \<longrightarrow>
        last evs = Probe False \<and> timeout_ms < now (snd (wait_loop st w)) - st) \<and>
     (fst (wait_loop st w) = Inr () \<longrightarrow> last evs = Probe True)"
proof (induction st w rule: wait_loop.induct)
  case (1 st w)
  show ?case
  proof (cases "fst (is_running w) \<or> timeout_ms < now (snd (is_running w)) - st")
    case True
    then have "trace (snd (wait_loop st w)) = trace w @ [Probe (fst (is_running w))]"
      by (subst wait_loop_cases) (auto simp: trace_is_running)
    moreover have "fst (wait_loop st w) = Inl startup_error \<longrightarrow>
        \<not> fst (is_running w) \<and> timeout_ms < now (snd (wait_loop st w)) - st"
      using True by (subst (1 2) wait_loop_cases) auto
    moreover have "fst (wait_loop st w) = Inr () \<longrightarrow> fst (is_running w)"
      using True by (subst wait_loop_cases) auto
    ultimately show ?thesis by auto
  next
    case False
    then have eq: "wait_loop st w = wait_loop st (sleep 500 (snd (is_running w)))"
      by (subst wait_loop_cases) simp
    from False 1 [OF refl] obtain evs where
      evs: "trace (snd (wait_loop st (sleep 500 (snd (is_running w))))) =
         trace (sleep 500 (snd (is_running w))) @ evs" "poll_pattern evs"
        "fst (wait_loop st (sleep 500 (snd (is_running w)))) = Inl startup_error \<longrightarrow>
           last evs = Probe False \<and> timeout_ms < now (snd (wait_loop st (sleep 500 (snd (is_running w))))) - st"
        "fst (wait_loop st (sleep 500 (snd (is_running w)))) = Inr () \<longrightarrow> last evs = Probe True"
      by auto
    from evs(2) have ne: "evs \<noteq> []" by (cases evs) auto
    have "trace (snd (wait_loop st w)) = trace w @ (Probe False # Sleep 500 # evs)"
      using eq evs(1) False by (simp add: trace_is_running)
    moreover have "poll_pattern (Probe False # Sleep 500 # evs)"
      using evs(2) by simp
    ultimately show ?thesis using evs(3,4) eq ne
      by (intro exI [of _ "Probe False # Sleep 500 # evs"]) simp
  qed
qed

lemma wait_loop_never_alive:
  "\<forall>i\<ge>probes w. \<not> fst (liveness w i) \<Longrightarrow> fst (wait_loop st w) = Inl startup_error"
proof (induction st w rule: wait_loop.induct)
  case (1 st w)
  then have dead: "\<not> fst (is_running w)" by simp
  show ?case
  proof (cases "timeout_ms < now (snd (is_running w)) - st")
    case True
    then show ?thesis using dead by (subst wait_loop_cases) simp
  next
    case False
    have "fst (wait_loop st (sleep 500 (snd (is_running w)))) = Inl startup_error"
      using "1.IH" [OF refl dead False] "1.prems" by simp
    then show ?thesis using dead False by (subst wait_loop_cases) simp
  qed
qed


lemma poll_events_no_generate: "list_all is_poll_event evs \<Longrightarrow> Generate p \<notin> set evs"
  by (induction evs) auto

lemma start_alive: "fst (is_running w) \<Longrightarrow> start s w = (Inr (), s, snd (is_running w))"
  by (simp add: start_def Let_def)

lemma spawned_fields:
  "trace (spawned s w) = trace w @ [Probe (fst (is_running w)),
      Print (''Starting Ollama server for model: '' @ model_name s), Spawn (next_pid w)]"
  "now (spawned s w) = now (snd (is_running w))"
  "probes (spawned s w) = Suc (probes w)"
  "liveness (spawned s w) = liveness w"
  by (simp_all add: spawned_def popen_def trace_is_running)

lemma start_dead:
  "\<not> fst (is_running w) \<Longrightarrow>
     start s w = (fst (wait_loop (now (spawned s w)) (spawned s w)), s\<lparr>proc := Some (next_pid w)\<rparr>,
                  snd (wait_loop (now (spawned s w)) (spawned s w)))"
  by (simp add: start_def Let_def spawned_def popen_def)

lemma main_start_fails:
  "fst (start (new_server the_model) w) = Inl e \<Longrightarrow>
     main d llm w = (Uncaught e, snd (start (new_server the_model) w))"
  by (simp add: main_def Let_def)

lemma poll_elapsed_shift:
  "poll_elapsed lv n base (Suc j) = poll_elapsed lv (Suc n) (base + snd (lv n) + 500) j"
  by (induction j) simp_all

lemma now_is_running_eq: "now (snd (is_running w)) = now w + snd (liveness w (probes w))"
  by (simp add: is_running_def Let_def)

lemma wait_loop_first:
  assumes "st \<le> now w"
      and "\<forall>j<k. \<not> fst (liveness w (probes w + j)) \<and>
             poll_elapsed (liveness w) (probes w) (now w - st) j \<le> timeout_ms"
  shows "(fst (liveness w (probes w + k)) \<longrightarrow>
            fst (wait_loop st w) = Inr () \<and>
            now (snd (wait_loop st w)) - st = poll_elapsed (liveness w) (probes w) (now w - st) k) \<and>
         (\<not> fst (liveness w (probes w + k)) \<and>
          timeout_ms < poll_elapsed (liveness w) (probes w) (now w - st) k \<longrightarrow>
            fst (wait_loop st w) = Inl startup_error \<and>
            now (snd (wait_loop st w)) - st = poll_elapsed (liveness w) (probes w) (now w - st) k)"
  using assms
proof (induction k arbitrary: w)
  case 0
  have el: "now (snd (is_running w)) - st = now w - st + snd (liveness w (probes w))"
    using "0.prems"(1) by (simp add: now_is_running_eq)
  show ?case
    using el by (subst (1 2 3 4) wait_loop_cases) auto
next
  case (Suc k)
  let ?w = "sleep 500 (snd (is_running w))"
  have el: "now (snd (is_running w)) - st = now w - st + snd (liveness w (probes w))"
    using Suc.prems(1) by (simp add: now_is_running_eq)
  from Suc.prems(2) have first: "\<not> fst (liveness w (probes w))"
      "now w - st + snd (liveness w (probes w)) \<le> timeout_ms"
    by (auto dest: spec [of _ 0])
  have eq: "wait_loop st w = wait_loop st ?w"
    using first el by (subst wait_loop_cases) simp
  have st: "st \<le> now ?w"
    using Suc.prems(1) by (simp add: now_is_running_eq)
  have base: "now ?w - st = now w - st + snd (liveness w (probes w)) + 500"
    using Suc.prems(1) by (simp add: now_is_running_eq)
  have sh: "poll_elapsed (liveness ?w) (probes ?w) (now ?w - st) j =
      poll_elapsed (liveness w) (probes w) (now w - st) (Suc j)" for j
    using poll_elapsed_shift [of "liveness w" "probes w" "now w - st" j] base by simp
  have hyp: "\<forall>j<k. \<not> fst (liveness ?w (probes ?w + j)) \<and>
             poll_elapsed (liveness ?w) (probes ?w) (now ?w - st) j \<le> timeout_ms"
  proof (intro allI impI)
    fix j assume "j < k"
    then have "Suc j < Suc k" by simp
    with Suc.prems(2) have "\<not> fst (liveness w (probes w + Suc j)) \<and>
             poll_elapsed (liveness w) (probes w) (now w - st) (Suc j) \<le> timeout_ms"
      by blast
    then show "\<not> fst (liveness ?w (probes ?w + j)) \<and>
             poll_elapsed (liveness ?w) (probes ?w) (now ?w - st) j \<le> timeout_ms"
      using sh [of j] by simp
  qed
  from Suc.IH [OF st hyp] show ?case
    using eq sh [of k] by simp
qed


lemma start_decides_at_first:
  assumes dead: "\<not> fst (is_running w)"
  shows "(\<forall>j<k. \<not> fst (liveness w (Suc (probes w) + j)) \<and>
                   poll_elapsed (liveness w) (Suc (probes w)) 0 j \<le> 5000) \<longrightarrow>
          (fst (liveness w (Suc (probes w) + k)) \<longrightarrow>
             fst (start s w) = Inr () \<and>
             now (snd (snd (start s w))) - now (snd (is_running w)) =
               poll_elapsed (liveness w) (Suc (probes w)) 0 k) \<and>
          (\<not> fst (liveness w (Suc (probes w) + k)) \<and>
           5000 < poll_elapsed (liveness w) (Suc (probes w)) 0 k \<longrightarrow>
             fst (start s w) = Inl startup_error \<and>
             now (snd (snd (start s w))) - now (snd (is_running w)) =
               poll_elapsed (liveness w) (Suc (probes w)) 0 k)"
proof
  let ?v = "spawned s w"
  assume h: "\<forall>j<k. \<not> fst (liveness w (Suc (probes w) + j)) \<and>
                   poll_elapsed (liveness w) (Suc (probes w)) 0 j \<le> 5000"
  have f: "liveness ?v = liveness w" "probes ?v = Suc (probes w)" "now ?v - now ?v = 0"
      "now ?v = now (snd (is_running w))"
    by (simp_all add: spawned_fields)
  have "\<forall>j<k. \<not> fst (liveness ?v (probes ?v + j)) \<and>
             poll_elapsed (liveness ?v) (probes ?v) (now ?v - now ?v) j \<le> timeout_ms"
    using h unfolding f by (simp add: timeout_ms_def)
  from wait_loop_first [OF order_refl this]
  show "(fst (liveness w (Suc (probes w) + k)) \<longrightarrow>
             fst (start s w) = Inr () \<and>
             now (snd (snd (start s w))) - now (snd (is_running w)) =
               poll_elapsed (liveness w) (Suc (probes w)) 0 k) \<and>
          (\<not> fst (liveness w (Suc (probes w) + k)) \<and>
           5000 < poll_elapsed (liveness w) (Suc (probes w)) 0 k \<longrightarrow>
             fst (start s w) = Inl startup_error \<and>
             now (snd (snd (start s w))) - now (snd (is_running w)) =
               poll_elapsed (liveness w) (Suc (probes w)) 0 k)"
    unfolding f start_dead [OF dead, of s] by (simp add: timeout_ms_def)
qed

section \<open>Ownership of the spawned process\<close>

text \<open>
  C10.  When \<open>start\<close> raises, it raises the startup-timeout error, the instance holds
  the handle of the process it spawned, and \<open>start\<close> has done nothing to that process
  after spawning it but poll (health checks and sleeps); \<open>stop\<close> called next terminates
  and waits for exactly that process and clears the handle.  \<open>stop\<close> with no handle
  recorded does nothing to any process, and \<open>start\<close> on a server that already answers
  returns after the one health check, the instance unchanged.
\<close>

theorem start_timeout_keeps_handle:
  "(fst (start s w) = Inl e \<longrightarrow>
      e = startup_error \<and>
      proc (fst (snd (start s w))) = Some (next_pid w) \<and>
      (\<exists>evs. trace (snd (snd (start s w))) =
          trace w @ [Probe False, Print (''Starting Ollama server for model: '' @ model_name s),
                     Spawn (next_pid w)] @ evs \<and> list_all is_poll_event evs) \<and>
      proc (fst (stop (fst (snd (start s w))) (snd (snd (start s w))))) = None \<and>
      trace (snd (stop (fst (snd (start s w))) (snd (snd (start s w))))) =
        trace (snd (snd (start s w))) @ [CallStop, Terminate (next_pid w), Wait (next_pid w)]) \<and>
   (proc s = None \<longrightarrow> stop s w = (s, emit CallStop w)) \<and>
   (fst (is_running w) \<longrightarrow> start s w = (Inr (), s, snd (is_running w)) \<and>
      trace (snd (snd (start s w))) = trace w @ [Probe True])"
proof (intro conjI impI)
  show "stop s w = (s, emit CallStop w)" if "proc s = None"
    using that by (simp add: stop_def Let_def)
  show "start s w = (Inr (), s, snd (is_running w))" if "fst (is_running w)"
    using that by (simp add: start_def Let_def)
  show "trace (snd (snd (start s w))) = trace w @ [Probe True]" if "fst (is_running w)"
    using that by (simp add: start_def Let_def trace_is_running)
next
  assume e: "fst (start s w) = Inl e"
  then have nr: "\<not> fst (is_running w)"
    by (auto simp: start_def Let_def split: if_splits)
  define w1 where "w1 = snd (popen (emit (Print (''Starting Ollama server for model: '' @ model_name s)) (snd (is_running w))))"
  have st: "start s w = (fst (wait_loop (now w1) w1), s\<lparr>proc := Some (next_pid w)\<rparr>, snd (wait_loop (now w1) w1))"
    using nr by (simp add: start_def Let_def w1_def popen_def is_running_def)
  have tw1: "trace w1 = trace w @ [Probe False, Print (''Starting Ollama server for model: '' @ model_name s), Spawn (next_pid w)]"
    using nr by (simp add: w1_def popen_def trace_is_running)
  show "e = startup_error" using e st wait_loop_result [of "now w1" w1] by auto
  show "proc (fst (snd (start s w))) = Some (next_pid w)" using st by simp
  show "\<exists>evs. trace (snd (snd (start s w))) =
          trace w @ [Probe False, Print (''Starting Ollama server for model: '' @ model_name s),
                     Spawn (next_pid w)] @ evs \<and> list_all is_poll_event evs"
    using wait_loop_trace [of "now w1" w1] st tw1 by auto
  show "proc (fst (stop (fst (snd (start s w))) (snd (snd (start s w))))) = None"
    using st by (simp add: stop_def Let_def)
  show "trace (snd (stop (fst (snd (start s w))) (snd (snd (start s w))))) =
        trace (snd (snd (start s w))) @ [CallStop, Terminate (next_pid w), Wait (next_pid w)]"
    using st by (simp add: stop_def Let_def)
qed

theorem start_timeout_keeps_handle_witness:
  "fst (start (new_server the_model) dead_world) = Inl startup_error \<and>
   proc (fst (snd (start (new_server the_model) dead_world))) = Some 1 \<and>
   trace (snd (stop (fst (snd (start (new_server the_model) dead_world)))
                    (snd (snd (start (new_server the_model) dead_world))))) =
     trace (snd (snd (start (new_server the_model) dead_world))) @
       [CallStop, Terminate 1, Wait 1]"
proof -
  have h: "fst (start (new_server the_model) dead_world) = Inl startup_error"
    by code_simp
  have n: "next_pid dead_world = 1"
    by (simp add: dead_world_def)
  show ?thesis
    using h n start_timeout_keeps_handle [of "new_server the_model" dead_world startup_error]
    by simp
qed

section \<open>Cleaning the response\<close>

lemma is_space_lower: "is_space c \<Longrightarrow> lower c = c"
  by (auto simp: is_space_def lower_def Let_def)

lemma prefix_like:
  assumes p: "map lower p = map lower commit_prefix"
  shows "length p = length commit_prefix \<and> p \<noteq> [] \<and> \<not> is_space (hd p)"
proof -
  from p have len: "length p = length commit_prefix"
    using length_map by metis
  then obtain c p' where pc: "p = c # p'"
    by (cases p) (simp_all add: commit_prefix_def)
  have star: "lower CHR ''*'' = CHR ''*''"
    by (simp add: lower_def)
  have "hd (map lower p) = hd (map lower commit_prefix)"
    using p by (rule arg_cong)
  moreover have "hd (map lower p) = lower c"
    by (simp add: pc)
  moreover have "hd (map lower commit_prefix) = lower CHR ''*''"
    by (simp add: commit_prefix_def)
  ultimately have lc: "lower c = CHR ''*''"
    using star by simp
  have "\<not> is_space c"
  proof
    assume sp: "is_space c"
    then have "c = CHR ''*''" using is_space_lower [OF sp] lc by simp
    with sp have "is_space CHR ''*''" by simp
    then show False by (simp add: is_space_def)
  qed
  then show ?thesis using len pc by simp
qed

lemma dropWhile_spaces_tail:
  "\<forall>c\<in>set ws. is_space c \<Longrightarrow> tail = [] \<or> \<not> is_space (hd tail) \<Longrightarrow>
     dropWhile is_space (ws @ tail) = tail"
  by (cases tail) (simp_all add: dropWhile_append2)

lemma strip_commit_prefix_found:
  assumes p: "map lower p = map lower commit_prefix"
      and ws0: "\<forall>c\<in>set ws0. is_space c" and ws: "\<forall>c\<in>set ws. is_space c"
      and tail: "tail = [] \<or> \<not> is_space (hd tail)"
  shows "strip_commit_prefix (ws0 @ p @ ws @ tail) = tail"
proof -
  from prefix_like [OF p] have len: "length p = length commit_prefix"
    and ne: "p \<noteq> []" "\<not> is_space (hd p)" by simp_all
  have "p @ ws @ tail = [] \<or> \<not> is_space (hd (p @ ws @ tail))"
    using ne by simp
  from dropWhile_spaces_tail [OF ws0 this]
  have d: "dropWhile is_space (ws0 @ p @ ws @ tail) = p @ ws @ tail" .
  have "startswith_ci (p @ ws @ tail) commit_prefix"
    using p len by (simp add: startswith_ci_def)
  then show ?thesis
    using d len dropWhile_spaces_tail [OF ws tail] by (simp add: strip_commit_prefix_def)
qed

lemma strip_commit_prefix_absent:
  assumes "map lower (take 19 (dropWhile is_space r)) \<noteq> map lower ''**Commit Message:**''"
  shows "strip_commit_prefix r = r"
proof -
  have len: "length commit_prefix = 19"
    by (simp add: commit_prefix_def)
  have "map lower (take 19 (dropWhile is_space r)) \<noteq> map lower commit_prefix"
    using assms unfolding commit_prefix_def .
  then have "\<not> startswith_ci (dropWhile is_space r) commit_prefix"
    unfolding startswith_ci_def len .
  then show ?thesis
    by (simp add: strip_commit_prefix_def Let_def)
qed

text \<open>
  C7.  When the model call returns \<open>raw\<close>, \<open>generate_commit_message\<close> returns the
  cleaned text of \<open>raw\<close>, to which the clause
  \<open>" and updated documentation accordingly"\<close> has been appended first when the filter
  reported an omission.  Cleaning a text that starts, after any whitespace, with
  \<open>**Commit Message:**\<close> in any letter case removes that whitespace, the prefix and all
  whitespace after the prefix, and keeps the rest, which may be empty.  Cleaning any other
  text leaves it as it is.  The response \<open>"**Commit Message:** Fix off-by-one in parser"\<close>
  is cleaned to \<open>"Fix off-by-one in parser"\<close>.
\<close>

theorem generate_cleans_response:
  "(llm (fst (preprocess_diff d None)) = Inr raw \<longrightarrow>
      fst (generate_commit_message s llm d w) =
        Inr (strip_commit_prefix
              (if snd (preprocess_diff d None)
               then raw @ '' and updated documentation accordingly'' else raw))) \<and>
   (map lower p = map lower ''**Commit Message:**'' \<and>
    (\<forall>c\<in>set ws0. is_space c) \<and> (\<forall>c\<in>set ws. is_space c) \<and>
    (tail = [] \<or> \<not> is_space (hd tail)) \<longrightarrow>
      strip_commit_prefix (ws0 @ p @ ws @ tail) = tail) \<and>
   (map lower (take 19 (dropWhile is_space r)) \<noteq> map lower ''**Commit Message:**'' \<longrightarrow>
      strip_commit_prefix r = r) \<and>
   strip_commit_prefix ''**Commit Message:** Fix off-by-one in parser'' =
     ''Fix off-by-one in parser''"
proof (intro conjI impI)
  assume "llm (fst (preprocess_diff d None)) = Inr raw"
  then show "fst (generate_commit_message s llm d w) =
        Inr (strip_commit_prefix
              (if snd (preprocess_diff d None)
               then raw @ '' and updated documentation accordingly'' else raw))"
    by (simp add: generate_commit_message_def Let_def note_clause_def)
next
  assume "map lower p = map lower ''**Commit Message:**'' \<and>
    (\<forall>c\<in>set ws0. is_space c) \<and> (\<forall>c\<in>set ws. is_space c) \<and>
    (tail = [] \<or> \<not> is_space (hd tail))"
  then show "strip_commit_prefix (ws0 @ p @ ws @ tail) = tail"
    using strip_commit_prefix_found [of p ws0 ws tail] by (simp add: commit_prefix_def)
next
  assume "map lower (take 19 (dropWhile is_space r)) \<noteq> map lower ''**Commit Message:**''"
  then show "strip_commit_prefix r = r"
    by (rule strip_commit_prefix_absent)
next
  show "strip_commit_prefix ''**Commit Message:** Fix off-by-one in parser'' =
     ''Fix off-by-one in parser''"
    by code_simp
qed

theorem generate_cleans_response_witness:
  "fst (generate_commit_message owning_server (\<lambda>prompt. Inr ''**commit MESSAGE:** Fix'')
         ''diff --git a/uv.lock b/uv.lock'' live_world) =
     Inr ''Fix and updated documentation accordingly'' \<and>
   strip_commit_prefix ''Fix off-by-one in parser, see notes'' =
     ''Fix off-by-one in parser, see notes'' \<and>
   strip_commit_prefix (''  **COMMIT message:**'' @ nl) = []"
proof -
  have om: "snd (preprocess_diff ''diff --git a/uv.lock b/uv.lock'' None)"
    by code_simp
  have pre: "map lower ''**commit MESSAGE:**'' = map lower ''**Commit Message:**''"
    by code_simp
  have pre2: "map lower ''**COMMIT message:**'' = map lower ''**Commit Message:**''"
    by code_simp
  have sp1: "\<forall>c\<in>set '' ''. is_space c"
    by (simp add: is_space_def)
  have sp2: "\<forall>c\<in>set ''  ''. is_space c"
    by (simp add: is_space_def)
  have sp3: "\<forall>c\<in>set nl. is_space c"
    by (simp add: is_space_def nl_def)
  have sp0: "\<forall>c\<in>set ([] :: string). is_space c"
    by simp
  have tl1: "''Fix and updated documentation accordingly'' = [] \<or>
      \<not> is_space (hd ''Fix and updated documentation accordingly'')"
    by (simp add: is_space_def)
  have tl2: "([] :: string) = [] \<or> \<not> is_space (hd ([] :: string))"
    by simp
  have no: "map lower (take 19 (dropWhile is_space ''Fix off-by-one in parser, see notes'')) \<noteq>
      map lower ''**Commit Message:**''"
    by code_simp
  note t1 = generate_cleans_response [where llm = "\<lambda>prompt. Inr ''**commit MESSAGE:** Fix''"
        and d = "''diff --git a/uv.lock b/uv.lock''" and raw = "''**commit MESSAGE:** Fix''"
        and s = owning_server and w = live_world
        and p = "''**commit MESSAGE:**''" and ?ws0.0 = "[]" and ws = "'' ''"
        and tail = "''Fix and updated documentation accordingly''"
        and r = "''Fix off-by-one in parser, see notes''"]
  note t2 = generate_cleans_response [where llm = "\<lambda>prompt. Inr ''**commit MESSAGE:** Fix''"
        and d = "''diff --git a/uv.lock b/uv.lock''" and raw = "''**commit MESSAGE:** Fix''"
        and s = owning_server and w = live_world
        and p = "''**COMMIT message:**''" and ?ws0.0 = "''  ''" and ws = nl
        and tail = "[]" and r = "''Fix off-by-one in parser, see notes''"]
  have a: "fst (generate_commit_message owning_server (\<lambda>prompt. Inr ''**commit MESSAGE:** Fix'')
         ''diff --git a/uv.lock b/uv.lock'' live_world) =
     Inr (strip_commit_prefix (if snd (preprocess_diff ''diff --git a/uv.lock b/uv.lock'' None)
          then ''**commit MESSAGE:** Fix'' @ '' and updated documentation accordingly''
          else ''**commit MESSAGE:** Fix''))"
    using t1 by blast
  have b: "strip_commit_prefix ([] @ ''**commit MESSAGE:**'' @ '' '' @
            ''Fix and updated documentation accordingly'') =
      ''Fix and updated documentation accordingly''"
    using pre sp0 sp1 tl1 t1 by blast
  have c: "strip_commit_prefix ''Fix off-by-one in parser, see notes'' =
     ''Fix off-by-one in parser, see notes''"
    using no t1 by blast
  have e: "strip_commit_prefix (''  '' @ ''**COMMIT message:**'' @ nl @ []) = []"
    using pre2 sp2 sp3 tl2 t2 by blast
  have cat: "''**commit MESSAGE:** Fix'' @ '' and updated documentation accordingly'' =
      [] @ ''**commit MESSAGE:**'' @ '' '' @ ''Fix and updated documentation accordingly''"
    by simp
  have cat2: "''  **COMMIT message:**'' @ nl = ''  '' @ ''**COMMIT message:**'' @ nl @ []"
    by simp
  have a': "fst (generate_commit_message owning_server (\<lambda>prompt. Inr ''**commit MESSAGE:** Fix'')
         ''diff --git a/uv.lock b/uv.lock'' live_world) =
     Inr ''Fix and updated documentation accordingly''"
    using a om b by (simp only: if_True cat)
  have e': "strip_commit_prefix (''  **COMMIT message:**'' @ nl) = []"
    using e by (simp only: cat2)
  from a' c e' show ?thesis by blast
qed

section \<open>The cleanup of \<open>generate_commit_message\<close>\<close>

text \<open>
  C1 (as the claim states it, refuted).  In \<open>owned_world\<close> the snapshot finds a server
  running before the work, the one the instance has spawned as process 7, and the
  \<open>finally\<close> block does call \<open>stop\<close>, which terminates that process.
\<close>

theorem cleanup_stops_a_server_found_running:
  "pgrep owned_world = Some (''7'' @ nl) \<and>
   trace (snd (snd (generate_commit_message owning_server (\<lambda>prompt. Inr ''Rename'')
                      rename_diff owned_world))) =
     [Pgrep, Generate rename_diff,
      Print (''Killing Ollama process b'' @ [CHR 0x27] @ ''7'' @ [CHR 0x27]), CallStop,
      Terminate 7, Wait 7]"
  by code_simp

text \<open>
  C1 (amended).  The \<open>finally\<close> block runs whatever the model call returns or raises,
  and it calls \<open>stop\<close> exactly when the snapshot \<open>get_pid\<close> took before the work is
  true in Python, that is when \<open>pgrep\<close> found a running server and printed its pid: the
  events of a request are the \<open>pgrep\<close>, the model call and then, only in that case, the
  message, the call of \<open>stop\<close> and what \<open>stop\<close> does to the process the instance
  owns, after which the instance owns none.
\<close>

theorem cleanup_follows_the_snapshot:
  "trace (snd (snd (generate_commit_message s llm d w))) =
     trace w @ [Pgrep, Generate (fst (preprocess_diff d None))] @
     (if pid_truthy (fst (get_pid w))
      then [Print (''Killing Ollama process '' @ bytes_repr (the (fst (get_pid w)))), CallStop] @
           (case proc s of None \<Rightarrow> [] | Some p \<Rightarrow> [Terminate p, Wait p])
      else []) \<and>
   proc (fst (snd (generate_commit_message s llm d w))) =
     (if pid_truthy (fst (get_pid w)) then None else proc s) \<and>
   pid_truthy (fst (get_pid w)) = (\<exists>out. pgrep w = Some out \<and> bytes_strip out \<noteq> [])"
  by (auto simp add: generate_commit_message_def Let_def get_pid_def stop_def pid_truthy_def
      split: option.splits)

theorem cleanup_follows_the_snapshot_witness:
  "trace (snd (snd (generate_commit_message owning_server (\<lambda>prompt. Inl (InferenceError ''down''))
                      rename_diff owned_world))) =
     [Pgrep, Generate rename_diff,
      Print (''Killing Ollama process b'' @ [CHR 0x27] @ ''7'' @ [CHR 0x27]), CallStop,
      Terminate 7, Wait 7] \<and>
   proc (fst (snd (generate_commit_message owning_server (\<lambda>prompt. Inl (InferenceError ''down''))
                      rename_diff owned_world))) = None \<and>
   trace (snd (snd (generate_commit_message (new_server the_model) (\<lambda>prompt. Inr ''Rename'')
                      rename_diff dead_world))) =
     [Pgrep, Generate rename_diff]"
proof -
  have f: "fst (preprocess_diff rename_diff None) = rename_diff"
    by code_simp
  have d: "fst (get_pid dead_world) = None" "trace dead_world = []"
    by (simp_all add: get_pid_def dead_world_def)
  have l: "fst (get_pid owned_world) = Some ''7''" "trace owned_world = []"
      "bytes_repr ''7'' = ''b'' @ [CHR 0x27] @ ''7'' @ [CHR 0x27]"
    by code_simp+
  have o: "proc owning_server = Some 7"
    by (simp add: owning_server_def)
  show ?thesis
    using f d l o
      cleanup_follows_the_snapshot [of owning_server
        "\<lambda>prompt. Inl (InferenceError ''down'')" rename_diff owned_world]
      cleanup_follows_the_snapshot [of "new_server the_model"
        "\<lambda>prompt. Inr ''Rename''" rename_diff dead_world]
    by (simp add: pid_truthy_def)
qed

section \<open>The key \<open>split_diff_by_file\<close> takes from a header\<close>

text \<open>
  C2 (the code differs from the claim).  For the header \<open>diff --git a/old.py b/new.py\<close>
  of a rename, \<open>parts[2]\<close> is \<open>a/old.py\<close>, the first path of the header: the one key
  of the result is \<open>old.py\<close>, the path before the change, and not \<open>new.py\<close>.
\<close>

theorem split_rename_keeps_old_path:
  "split_diff_by_file rename_diff = [(''old.py'', rename_diff)] \<and>
   parts_of ''diff --git a/old.py b/new.py'' = [''diff'', ''--git'', ''a/old.py'', ''b/new.py'']"
  by code_simp

theorem split_rename_keeps_old_path_witness:
  "map fst (split_diff_by_file rename_diff) = [''old.py''] \<and>
   map fst (split_diff_by_file rename_diff) \<noteq> [''new.py'']"
  using split_rename_keeps_old_path by simp

section \<open>The startup deadline\<close>

text \<open>
  C8 (as the claim states it, refuted).  In \<open>slow_world\<close> the server is spawned at time
  0 and no health check succeeds within the 5000 ms of the deadline: the first check of the
  loop fails at 4900 ms, the loop sleeps 500 ms, and the next check succeeds at 5500 ms.
  \<open>start\<close> returns normally all the same, since the deadline is only looked at after a
  failed check.
\<close>

theorem late_answer_is_accepted:
  "fst (start (new_server the_model) slow_world) = Inr () \<and>
   trace (snd (snd (start (new_server the_model) slow_world))) =
     [Probe False, Print (''Starting Ollama server for model: '' @ the_model), Spawn 1,
      Probe False, Sleep 500, Probe True] \<and>
   now (snd (is_running slow_world)) = 0 \<and>
   now (snd (snd (start (new_server the_model) slow_world))) = 5500 \<and> timeout_ms = 5000"
  by code_simp

text \<open>
  C8 (amended).  When the first health check of \<open>start\<close> fails, \<open>start\<close> spawns the
  server and polls: failed health checks, each followed by a sleep of 0.5 s, up to a last
  check.  The first check of the loop that either succeeds or ends more than 5 s after the
  spawn decides: \<open>start\<close> returns normally at once if it succeeds (also when it ends
  after the 5 s) and raises the startup-timeout error at once if it fails.  So \<open>start\<close>
  raises exactly when the last check failed, and then more than 5 s have passed since the
  spawn; and if no health check after the first ever succeeds, it does raise.  When
  \<open>start\<close> raises in the entry point, the entry point ends with that error and has made
  no inference call.
\<close>

theorem start_raises_after_deadline:
  assumes dead: "\<not> fst (is_running w)"
  shows "(\<exists>evs. trace (snd (snd (start s w))) =
            trace w @ [Probe False, Print (''Starting Ollama server for model: '' @ model_name s),
                       Spawn (next_pid w)] @ evs \<and>
          poll_pattern evs \<and>
          (fst (start s w) = Inl startup_error \<longleftrightarrow> last evs = Probe False)) \<and>
     (fst (start s w) = Inl startup_error \<or> fst (start s w) = Inr ()) \<and>
     (fst (start s w) = Inl startup_error \<longrightarrow>
        timeout_ms < now (snd (snd (start s w))) - now (snd (is_running w))) \<and>
     (\<forall>k. (\<forall>j<k. \<not> fst (liveness w (Suc (probes w) + j)) \<and>
                   poll_elapsed (liveness w) (Suc (probes w)) 0 j \<le> 5000) \<longrightarrow>
          (fst (liveness w (Suc (probes w) + k)) \<longrightarrow>
             fst (start s w) = Inr () \<and>
             now (snd (snd (start s w))) - now (snd (is_running w)) =
               poll_elapsed (liveness w) (Suc (probes w)) 0 k) \<and>
          (\<not> fst (liveness w (Suc (probes w) + k)) \<and>
           5000 < poll_elapsed (liveness w) (Suc (probes w)) 0 k \<longrightarrow>
             fst (start s w) = Inl startup_error \<and>
             now (snd (snd (start s w))) - now (snd (is_running w)) =
               poll_elapsed (liveness w) (Suc (probes w)) 0 k)) \<and>
     ((\<forall>i>probes w. \<not> fst (liveness w i)) \<longrightarrow> fst (start s w) = Inl startup_error) \<and>
     (fst (start (new_server the_model) w) = Inl startup_error \<longrightarrow>
        fst (main d llm w) = Uncaught startup_error \<and>
        (\<forall>p. Generate p \<in> set (trace (snd (snd (main d llm w)))) \<longrightarrow> Generate p \<in> set (trace w)))"
proof -
  let ?w1 = "spawned s w"
  let ?r = "wait_loop (now ?w1) ?w1"
  note st = start_dead [OF dead, of s]
  from wait_loop_pattern [of "now ?w1" ?w1] obtain evs where
    evs: "trace (snd ?r) = trace ?w1 @ evs" "poll_pattern evs"
      "fst ?r = Inl startup_error \<longrightarrow> last evs = Probe False \<and> timeout_ms < now (snd ?r) - now ?w1"
      "fst ?r = Inr () \<longrightarrow> last evs = Probe True"
    by blast
  have res: "fst ?r = Inr () \<or> fst ?r = Inl startup_error"
    by (rule wait_loop_result)
  have a: "\<exists>evs. trace (snd (snd (start s w))) =
            trace w @ [Probe False, Print (''Starting Ollama server for model: '' @ model_name s),
                       Spawn (next_pid w)] @ evs \<and>
          poll_pattern evs \<and>
          (fst (start s w) = Inl startup_error \<longleftrightarrow> last evs = Probe False)"
    using evs res dead by (intro exI [of _ evs]) (auto simp: st spawned_fields)
  have b: "fst (start s w) = Inl startup_error \<or> fst (start s w) = Inr ()"
    using res by (auto simp: st)
  have c: "fst (start s w) = Inl startup_error \<longrightarrow>
        timeout_ms < now (snd (snd (start s w))) - now (snd (is_running w))"
    using evs(3) by (simp add: st spawned_fields)
  have d: "(\<forall>i>probes w. \<not> fst (liveness w i)) \<longrightarrow> fst (start s w) = Inl startup_error"
  proof
    assume "\<forall>i>probes w. \<not> fst (liveness w i)"
    then have "\<forall>i\<ge>probes ?w1. \<not> fst (liveness ?w1 i)"
      by (simp add: spawned_fields Suc_le_eq)
    then show "fst (start s w) = Inl startup_error"
      using wait_loop_never_alive [of ?w1 "now ?w1"] by (simp add: st)
  qed
  have e: "fst (start (new_server the_model) w) = Inl startup_error \<longrightarrow>
        fst (main d llm w) = Uncaught startup_error \<and>
        (\<forall>p. Generate p \<in> set (trace (snd (snd (main d llm w)))) \<longrightarrow> Generate p \<in> set (trace w))"
  proof (intro impI conjI allI)
    assume f: "fst (start (new_server the_model) w) = Inl startup_error"
    show "fst (main d llm w) = Uncaught startup_error"
      using main_start_fails [OF f] by simp
    fix p assume g: "Generate p \<in> set (trace (snd (snd (main d llm w))))"
    let ?v = "spawned (new_server the_model) w"
    from wait_loop_trace [of "now ?v" ?v] obtain es where
      es: "trace (snd (wait_loop (now ?v) ?v)) = trace ?v @ es" "list_all is_poll_event es"
      by blast
    have "trace (snd (snd (main d llm w))) = trace ?v @ es"
      using main_start_fails [OF f, of d llm] es(1) start_dead [OF dead, of "new_server the_model"]
      by simp
    with g poll_events_no_generate [OF es(2), of p] show "Generate p \<in> set (trace w)"
      by (auto simp: spawned_fields)
  qed
  note f = start_decides_at_first [OF dead, of _ s]
  from a b c d e f show ?thesis by blast
qed

theorem start_raises_after_deadline_witness:
  "\<not> fst (is_running dead_world) \<and>
   poll_elapsed (liveness dead_world) (Suc (probes dead_world)) 0 2 = 4000 \<and>
   poll_elapsed (liveness dead_world) (Suc (probes dead_world)) 0 3 = 5500 \<and>
   fst (start (new_server the_model) dead_world) = Inl startup_error \<and>
   now (snd (snd (start (new_server the_model) dead_world))) - now (snd (is_running dead_world)) = 5500 \<and>
   fst (main rename_diff (\<lambda>prompt. Inr ''Rename'') dead_world) = Uncaught startup_error"
proof -
  have h: "\<not> fst (is_running dead_world)"
    by (simp add: dead_world_def)
  have e: "poll_elapsed (liveness dead_world) (Suc (probes dead_world)) 0 0 = 1000"
      "poll_elapsed (liveness dead_world) (Suc (probes dead_world)) 0 1 = 2500"
      "poll_elapsed (liveness dead_world) (Suc (probes dead_world)) 0 2 = 4000"
      "poll_elapsed (liveness dead_world) (Suc (probes dead_world)) 0 3 = 5500"
    by code_simp+
  have l: "\<not> fst (liveness dead_world i)" for i
    by (simp add: dead_world_def)
  have p: "\<forall>j<3. \<not> fst (liveness dead_world (Suc (probes dead_world) + j)) \<and>
      poll_elapsed (liveness dead_world) (Suc (probes dead_world)) 0 j \<le> 5000"
  proof (intro allI impI)
    fix j :: nat assume "j < 3"
    then consider "j = 0" | "j = 1" | "j = 2" by linarith
    then show "\<not> fst (liveness dead_world (Suc (probes dead_world) + j)) \<and>
      poll_elapsed (liveness dead_world) (Suc (probes dead_world)) 0 j \<le> 5000"
      using e l by cases simp_all
  qed
  note t = start_raises_after_deadline [OF h, of "new_server the_model" rename_diff
        "\<lambda>prompt. Inr ''Rename''"]
  from t have "(\<forall>j<3. \<not> fst (liveness dead_world (Suc (probes dead_world) + j)) \<and>
                   poll_elapsed (liveness dead_world) (Suc (probes dead_world)) 0 j \<le> 5000) \<longrightarrow>
          (\<not> fst (liveness dead_world (Suc (probes dead_world) + 3)) \<and>
           5000 < poll_elapsed (liveness dead_world) (Suc (probes dead_world)) 0 3 \<longrightarrow>
             fst (start (new_server the_model) dead_world) = Inl startup_error \<and>
             now (snd (snd (start (new_server the_model) dead_world))) - now (snd (is_running dead_world)) =
               poll_elapsed (liveness dead_world) (Suc (probes dead_world)) 0 3)"
    by blast
  with p l e have r: "fst (start (new_server the_model) dead_world) = Inl startup_error"
      "now (snd (snd (start (new_server the_model) dead_world))) - now (snd (is_running dead_world)) = 5500"
    by simp_all
  from t r(1) have "fst (main rename_diff (\<lambda>prompt. Inr ''Rename'') dead_world) = Uncaught startup_error"
    by blast
  with h e r show ?thesis by simp
qed

section \<open>Empty input\<close>

text \<open>
  C4 (as the claim states it, refuted).  On a whitespace-only input the entry point exits
  with code 1 after printing its message, but \<open>server.start()\<close> has run before: in
  \<open>slow_world\<close> a health check, the spawn of the server and the polling all come before
  the input is read and rejected.
\<close>

theorem empty_diff_is_rejected_after_the_server_started:
  "strip ''  '' = [] \<and> fst (main ''  '' (\<lambda>prompt. Inr ''x'') slow_world) = Exited 1 \<and>
   trace (snd (snd (main ''  '' (\<lambda>prompt. Inr ''x'') slow_world))) =
     [Probe False, Print (''Starting Ollama server for model: '' @ the_model), Spawn 1,
      Probe False, Sleep 500, Probe True, ReadDiff, Print ''No diff provided!'']"
  by code_simp

text \<open>
  C4 (amended).  On an input that is empty or whitespace only, the entry point first runs
  \<open>server.start()\<close>, whose first event is a health check.  If \<open>start\<close> returns, the
  entry point reads the input, prints \<open>No diff provided!\<close> and exits with code 1; if
  \<open>start\<close> raises, the entry point ends with that error.  In both cases no inference
  call is made.
\<close>

theorem empty_diff_rejected_after_start:
  assumes empty: "strip diff_text = []"
  shows "(fst (start (new_server the_model) w) = Inr () \<longrightarrow>
            fst (main diff_text llm w) = Exited 1 \<and>
            trace (snd (snd (main diff_text llm w))) =
              trace (snd (snd (start (new_server the_model) w))) @
                [ReadDiff, Print ''No diff provided!'']) \<and>
         (fst (start (new_server the_model) w) = Inl e \<longrightarrow>
            fst (main diff_text llm w) = Uncaught e \<and>
            trace (snd (snd (main diff_text llm w))) =
              trace (snd (snd (start (new_server the_model) w)))) \<and>
         (\<exists>evs. trace (snd (snd (main diff_text llm w))) =
                  trace w @ Probe (fst (is_running w)) # evs \<and>
                (\<forall>p. Generate p \<notin> set evs))"
proof -
  let ?s = "new_server the_model"
  have ok: "fst (main diff_text llm w) = Exited 1 \<and>
            trace (snd (snd (main diff_text llm w))) =
              trace (snd (snd (start ?s w))) @ [ReadDiff, Print ''No diff provided!'']"
    if "fst (start ?s w) = Inr ()"
    using that empty by (simp add: main_def Let_def)
  have bad: "fst (main diff_text llm w) = Uncaught e \<and>
            trace (snd (snd (main diff_text llm w))) = trace (snd (snd (start ?s w)))"
    if "fst (start ?s w) = Inl e" for e
    using main_start_fails [OF that] by simp
  have tr: "\<exists>evs. trace (snd (snd (start ?s w))) = trace w @ Probe (fst (is_running w)) # evs \<and>
                (\<forall>p. Generate p \<notin> set evs)"
  proof (cases "fst (is_running w)")
    case True
    then show ?thesis
      using start_alive [OF True, of ?s] by (simp add: trace_is_running)
  next
    case False
    let ?v = "spawned ?s w"
    from wait_loop_trace [of "now ?v" ?v] obtain es where
      es: "trace (snd (wait_loop (now ?v) ?v)) = trace ?v @ es" "list_all is_poll_event es"
      by blast
    have "\<forall>p. Generate p \<notin> set es"
      using poll_events_no_generate [OF es(2)] by simp
    then show ?thesis
      using es(1) start_dead [OF False, of ?s] False
      by (simp add: spawned_fields)
  qed
  then obtain evs where evs: "trace (snd (snd (start ?s w))) = trace w @ Probe (fst (is_running w)) # evs"
      "\<forall>p. Generate p \<notin> set evs"
    by blast
  have res: "fst (start ?s w) = Inr () \<or> (\<exists>e. fst (start ?s w) = Inl e)"
    by (cases "fst (start ?s w)") auto
  have "\<exists>evs. trace (snd (snd (main diff_text llm w))) =
                  trace w @ Probe (fst (is_running w)) # evs \<and>
                (\<forall>p. Generate p \<notin> set evs)"
  proof (cases "fst (start ?s w)")
    case (Inl e')
    then show ?thesis using bad [OF Inl] evs by auto
  next
    case (Inr u)
    then have "fst (start ?s w) = Inr ()" by simp
    from ok [OF this] evs show ?thesis
      by (intro exI [of _ "evs @ [ReadDiff, Print ''No diff provided!'']"]) simp
  qed
  with ok bad show ?thesis by blast
qed

theorem empty_diff_rejected_after_start_witness:
  "strip ''  '' = [] \<and>
   fst (start (new_server the_model) live_world) = Inr () \<and>
   fst (main ''  '' (\<lambda>prompt. Inr ''x'') live_world) = Exited 1 \<and>
   trace (snd (snd (main ''  '' (\<lambda>prompt. Inr ''x'') live_world))) =
     trace (snd (snd (start (new_server the_model) live_world))) @
       [ReadDiff, Print ''No diff provided!'']"
proof -
  have e: "strip ''  '' = []"
    by code_simp
  have r: "fst (start (new_server the_model) live_world) = Inr ()"
    by code_simp
  show ?thesis
    using e r empty_diff_rejected_after_start [OF e, of live_world "\<lambda>prompt. Inr ''x''"]
    by blast
qed

section \<open>The loop of \<open>split_diff_by_file\<close>\<close>

lemma step_header:
  "is_header x \<Longrightarrow> step (fd, cf, ls) x =
     (save_segment fd cf ls, (if wf_header x then Some (extract_path x) else cf), [x])"
  by (simp add: wf_header_def)

lemma step_content: "\<not> is_header x \<Longrightarrow> step (fd, cf, ls) x = (fd, cf, ls @ [x])"
  by simp

declare step.simps [simp del]

lemma foldl_step_content:
  "\<forall>l\<in>set body. \<not> is_header l \<Longrightarrow> foldl step (fd, cf, ls) body = (fd, cf, ls @ body)"
  by (induction body arbitrary: ls) (simp_all add: step_content)

lemma save_segment_falsy [simp]:
  "save_segment fd None ls = fd" "save_segment fd (Some []) ls = fd"
  by (simp_all add: save_segment_def)

lemma save_segment_truthy:
  "k \<noteq> [] \<Longrightarrow> ls \<noteq> [] \<Longrightarrow> save_segment fd (Some k) ls = AList.update k (join nl ls) fd"
  by (simp add: save_segment_def)

lemma finish_no_file:
  "cf = None \<or> cf = Some [] \<Longrightarrow>
     finish (foldl step (fd, cf, ls) xs) = finish (foldl step (fd, cf, ls') xs)"
proof (induction xs arbitrary: ls ls')
  case Nil
  then show ?case by auto
next
  case (Cons x xs)
  show ?case
  proof (cases "is_header x")
    case True
    then show ?thesis using Cons.prems by (auto simp: step_header)
  next
    case False
    then show ?thesis using Cons.IH [OF Cons.prems] by (simp add: step_content)
  qed
qed

lemma update_new: "k \<notin> fst ` set al \<Longrightarrow> AList.update k v al = al @ [(k, v)]"
  by (induction al) auto

lemma set_update_subset: "set (AList.update k v al) \<subseteq> insert (k, v) (set al)"
  by (induction al) auto

lemma keys_save_segment:
  "cf = None \<or> ls \<noteq> [] \<Longrightarrow>
     fst ` set (save_segment fd cf ls) = fst ` set fd \<union> {p. cf = Some p \<and> p \<noteq> []}"
  by (auto simp: save_segment_def AList.dom_update split: option.splits)

lemma distinct_save_segment:
  "distinct (map fst fd) \<Longrightarrow> distinct (map fst (save_segment fd cf ls))"
  by (simp add: save_segment_def AList.distinct_update split: option.splits)

lemma map_of_save_segment_other:
  "cf \<noteq> Some p \<Longrightarrow> map_of (save_segment fd cf ls) p = map_of fd p"
  by (auto simp: save_segment_def AList.update_conv' split: option.splits)

lemma finish_distinct:
  "distinct (map fst fd) \<Longrightarrow> distinct (map fst (finish (foldl step (fd, cf, ls) xs)))"
proof (induction xs arbitrary: fd cf ls)
  case Nil
  then show ?case by (simp add: distinct_save_segment)
next
  case (Cons x xs)
  then show ?case
    by (cases "is_header x") (simp_all add: step_header step_content distinct_save_segment)
qed

lemma finish_keys:
  "cf = None \<or> ls \<noteq> [] \<Longrightarrow>
     fst ` set (finish (foldl step (fd, cf, ls) xs)) =
       fst ` set fd \<union> {p. cf = Some p \<and> p \<noteq> []} \<union> set (key_paths xs)"
proof (induction xs arbitrary: fd cf ls)
  case Nil
  then show ?case by (simp add: keys_save_segment key_paths_def)
next
  case (Cons x xs)
  show ?case
  proof (cases "is_header x")
    case True
    have "fst ` set (finish (foldl step (fd, cf, ls) (x # xs))) =
        fst ` set (save_segment fd cf ls) \<union>
        {p. (if wf_header x then Some (extract_path x) else cf) = Some p \<and> p \<noteq> []} \<union>
        set (key_paths xs)"
      using True Cons.IH [of "if wf_header x then Some (extract_path x) else cf" "[x]"]
      by (simp add: step_header)
    then show ?thesis
      using Cons.prems by (auto simp: keys_save_segment key_paths_def)
  next
    case False
    then have "\<not> wf_header x" by (simp add: wf_header_def)
    then show ?thesis
      using False Cons.IH [of cf "ls @ [x]" fd] Cons.prems
      by (simp add: step_content key_paths_def)
  qed
qed

lemma finish_keeps_entry:
  "cf \<noteq> Some p \<Longrightarrow> \<forall>l\<in>set xs. wf_header l \<longrightarrow> extract_path l \<noteq> p \<Longrightarrow>
     map_of (finish (foldl step (fd, cf, ls) xs)) p = map_of fd p"
proof (induction xs arbitrary: fd cf ls)
  case Nil
  then show ?case by (simp add: map_of_save_segment_other)
next
  case (Cons x xs)
  show ?case
  proof (cases "is_header x")
    case True
    have "(if wf_header x then Some (extract_path x) else cf) \<noteq> Some p"
      using Cons.prems by auto
    from Cons.IH [OF this, of "save_segment fd cf ls" "[x]"] Cons.prems
    show ?thesis using True by (simp add: step_header map_of_save_segment_other)
  next
    case False
    then show ?thesis using Cons.IH [of cf fd "ls @ [x]"] Cons.prems
      by (simp add: step_content)
  qed
qed

lemma split_lines_length: "length (split_lines xs) = length (key_paths xs)"
proof -
  have d: "distinct (map fst (split_lines xs))"
    unfolding split_lines_def by (rule finish_distinct) simp
  have "fst ` set (split_lines xs) = set (key_paths xs)"
    unfolding split_lines_def using finish_keys [of None "[]" "[]" xs] by simp
  then have e: "set (map fst (split_lines xs)) = set (key_paths xs)" by simp
  have dk: "distinct (key_paths xs)" by (simp add: key_paths_def)
  have "length (split_lines xs) = card (set (map fst (split_lines xs)))"
    using distinct_card [OF d] by simp
  also have "\<dots> = card (set (key_paths xs))" by (simp only: e)
  also have "\<dots> = length (key_paths xs)" by (rule distinct_card [OF dk])
  finally show ?thesis .
qed

section \<open>A malformed first header\<close>

text \<open>
  C3.  Let the first header line of a diff (the first line starting with
  \<open>diff --git\<close>) split into fewer than 3 tokens.  After that line no file name has been
  taken (\<open>current_file\<close> is still \<open>None\<close>) and nothing is stored: no segment is opened.
  The result is that of the lines after it alone, and it is the result the diff would have
  with any content line in the place of that header.  The function is total: the index
  \<open>parts[2]\<close> is not read on such a line.
\<close>

theorem malformed_first_header:
  assumes D: "splitlines D = pre @ m # rest"
      and pre: "\<forall>l\<in>set pre. \<not> is_header l"
      and m: "is_header m" "length (parts_of m) < 3"
  shows "foldl step ([], None, []) (pre @ [m]) = ([], None, [m]) \<and>
         split_diff_by_file D = split_lines rest \<and>
         (\<forall>c. \<not> is_header c \<longrightarrow> split_diff_by_file D = split_lines (pre @ c # rest))"
proof -
  have nwf: "\<not> wf_header m" using m by (simp add: wf_header_def)
  have a: "foldl step ([], None, []) (pre @ [m]) = ([], None, [m])"
    using foldl_step_content [OF pre, of "[]" None "[]"] m nwf by (simp add: step_header)
  have "split_lines (pre @ m # rest) = finish (foldl step ([], None, [m]) rest)"
    using a by (simp add: split_lines_def)
  also have "\<dots> = split_lines rest"
    unfolding split_lines_def by (rule finish_no_file) simp
  finally have b: "split_diff_by_file D = split_lines rest"
    by (simp add: split_diff_by_file_def D)
  have c: "split_lines (pre @ c # rest) = split_lines rest" if "\<not> is_header c" for c
  proof -
    have "\<forall>l\<in>set (pre @ [c]). \<not> is_header l" using pre that by simp
    from foldl_step_content [OF this, of "[]" None "[]"]
    have "split_lines (pre @ c # rest) = finish (foldl step ([], None, pre @ [c]) rest)"
      by (simp add: split_lines_def)
    also have "\<dots> = split_lines rest"
      unfolding split_lines_def by (rule finish_no_file) simp
    finally show ?thesis .
  qed
  from a b c show ?thesis by simp
qed

theorem malformed_first_header_witness:
  "splitlines malformed_first_diff = [''junk''] @ ''diff --git'' # [''+x'', ''diff --git a/f b/f'', ''+y''] \<and>
   is_header ''diff --git'' \<and> length (parts_of ''diff --git'') < 3 \<and>
   split_diff_by_file malformed_first_diff = [(''f'', ''diff --git a/f b/f'' @ nl @ ''+y'')] \<and>
   split_diff_by_file malformed_first_diff =
     split_lines ([''junk''] @ ''context'' # [''+x'', ''diff --git a/f b/f'', ''+y''])"
proof -
  have D: "splitlines malformed_first_diff =
      [''junk''] @ ''diff --git'' # [''+x'', ''diff --git a/f b/f'', ''+y'']"
    by code_simp
  have pre: "\<forall>l\<in>set [''junk'']. \<not> is_header l"
    by code_simp
  have m: "is_header ''diff --git''" "length (parts_of ''diff --git'') < 3"
    by code_simp+
  have c: "\<not> is_header ''context''"
    by code_simp
  have r: "split_lines [''+x'', ''diff --git a/f b/f'', ''+y''] =
      [(''f'', ''diff --git a/f b/f'' @ nl @ ''+y'')]"
    by code_simp
  note t = malformed_first_header [OF D pre m]
  have t2: "split_diff_by_file malformed_first_diff =
      [(''f'', ''diff --git a/f b/f'' @ nl @ ''+y'')]"
    using t r by simp
  have t3: "split_diff_by_file malformed_first_diff =
      split_lines ([''junk''] @ ''context'' # [''+x'', ''diff --git a/f b/f'', ''+y''])"
    using t c by blast
  show ?thesis
    using D m t2 t3 by blast
qed

section \<open>Repeated files\<close>

text \<open>
  C9 (as the claim states it, refuted).  In \<open>overwritten_diff\<close> the file \<open>f\<close> has two
  headers and a malformed header follows the second: the value kept for \<open>f\<close> is the
  segment of the malformed header, not the segment of the last header of \<open>f\<close>.  In
  \<open>empty_path_diff\<close> the name taken from both headers is empty, and the mapping is
  empty, not of size one.
\<close>

theorem last_segment_is_not_always_kept:
  "split_diff_by_file overwritten_diff = [(''f'', ''diff --git'' @ nl @ ''+3'')] \<and>
   splitlines overwritten_diff =
     [''diff --git a/f b/f'', ''+1'', ''diff --git a/f b/f'', ''+2'', ''diff --git'', ''+3''] \<and>
   extract_path ''diff --git a/ b/'' = [] \<and>
   split_diff_by_file empty_path_diff = []"
  by code_simp

text \<open>
  C9 (amended).  Let a header line with at least 3 tokens give the non-empty name \<open>p\<close>,
  let the lines after it up to the next header line be \<open>body\<close>, let the next header
  line, if there is one, have at least 3 tokens, and let no later header line with at least
  3 tokens give \<open>p\<close> again.  Then the mapping holds for \<open>p\<close> exactly that header line
  and its body, whatever was stored for \<open>p\<close> before.  The size of the mapping is the number
  of distinct non-empty names taken from header lines with at least 3 tokens, not the
  number of header lines.
\<close>

theorem last_segment_wins:
  assumes D: "splitlines D = xs @ h # body @ rest"
      and h: "is_header h" "3 \<le> length (parts_of h)" "extract_path h = p" "p \<noteq> []"
      and body: "\<forall>l\<in>set body. \<not> is_header l"
      and nxt: "rest = [] \<or> (is_header (hd rest) \<and> 3 \<le> length (parts_of (hd rest)))"
      and later: "\<forall>l\<in>set rest. is_header l \<and> 3 \<le> length (parts_of l) \<longrightarrow> extract_path l \<noteq> p"
  shows "map_of (split_diff_by_file D) p = Some (join nl (h # body)) \<and>
         length (split_diff_by_file D) = length (key_paths (splitlines D))"
proof -
  obtain fd1 cf1 ls1 where s1: "foldl step ([], None, []) xs = (fd1, cf1, ls1)"
    by (cases "foldl step ([], None, []) xs") auto
  define fd2 where "fd2 = save_segment fd1 cf1 ls1"
  have wf: "wf_header h" using h by (simp add: wf_header_def)
  have s2: "foldl step ([], None, []) (xs @ h # body) = (fd2, Some p, h # body)"
    using s1 h wf foldl_step_content [OF body, of fd2 "Some p" "[h]"]
    by (simp add: step_header fd2_def)
  have res: "split_diff_by_file D = finish (foldl step (fd2, Some p, h # body) rest)"
    using s2 by (simp add: split_diff_by_file_def split_lines_def D)
  have "map_of (finish (foldl step (fd2, Some p, h # body) rest)) p = Some (join nl (h # body))"
  proof (cases rest)
    case Nil
    then show ?thesis using h by (simp add: save_segment_truthy AList.update_conv')
  next
    case (Cons r rest')
    then have r: "is_header r" "wf_header r" "extract_path r \<noteq> p"
      using nxt later by (auto simp: wf_header_def)
    have "\<forall>l\<in>set rest'. wf_header l \<longrightarrow> extract_path l \<noteq> p"
      using later Cons by (auto simp: wf_header_def)
    from finish_keeps_entry [OF _ this, of "Some (extract_path r)"
        "AList.update p (join nl (h # body)) fd2" "[r]"] r
    show ?thesis using Cons h
      by (simp add: step_header save_segment_truthy AList.update_conv')
  qed
  then show ?thesis using res split_lines_length [of "splitlines D"]
    by (simp add: split_diff_by_file_def)
qed

theorem last_segment_wins_witness:
  "splitlines repeated_diff =
     [''diff --git a/f b/f'', ''+1'', ''diff --git a/g b/g'', ''+2''] @
       ''diff --git a/f b/f'' # [''+3''] @ [] \<and>
   map_of (split_diff_by_file repeated_diff) ''f'' = Some (''diff --git a/f b/f'' @ nl @ ''+3'') \<and>
   length (split_diff_by_file repeated_diff) = 2"
proof -
  have D: "splitlines repeated_diff =
     [''diff --git a/f b/f'', ''+1'', ''diff --git a/g b/g'', ''+2''] @
       ''diff --git a/f b/f'' # [''+3''] @ []"
    by code_simp
  have h: "is_header ''diff --git a/f b/f''" "3 \<le> length (parts_of ''diff --git a/f b/f'')"
      "extract_path ''diff --git a/f b/f'' = ''f''" "''f'' \<noteq> []"
    by code_simp+
  have body: "\<forall>l\<in>set [''+3'']. \<not> is_header l"
    by code_simp
  have nxt: "[] = [] \<or> (is_header (hd []) \<and> 3 \<le> length (parts_of (hd [])))"
    by simp
  have later: "\<forall>l\<in>set []. is_header l \<and> 3 \<le> length (parts_of l) \<longrightarrow> extract_path l \<noteq> ''f''"
    by simp
  have k: "length (key_paths (splitlines repeated_diff)) = 2"
    by code_simp
  have j: "join nl (''diff --git a/f b/f'' # [''+3'']) = ''diff --git a/f b/f'' @ nl @ ''+3''"
    by simp
  show ?thesis
    using D k j last_segment_wins [OF D h body nxt later] by simp
qed

section \<open>Joining and splitting lines\<close>

lemma join_append:
  "xs \<noteq> [] \<Longrightarrow> ys \<noteq> [] \<Longrightarrow> join sep (xs @ ys) = join sep xs @ sep @ join sep ys"
proof (induction sep xs rule: join.induct)
  case (1 sep)
  then show ?case by simp
next
  case (2 sep x)
  then show ?case by (cases ys) simp_all
next
  case (3 sep x y ys')
  then show ?case by simp
qed

lemma join_snoc2: "join sep (A @ [u, v]) = join sep (A @ [u @ sep @ v])"
proof (induction sep A rule: join.induct)
  case (1 sep)
  then show ?case by simp
next
  case (2 sep x)
  then show ?case by simp
next
  case (3 sep x y ys)
  then show ?case by simp
qed

lemma join_concat:
  "\<forall>c\<in>set css. c \<noteq> [] \<Longrightarrow> join sep (map (join sep) css) = join sep (concat css)"
proof (induction css)
  case Nil
  then show ?case by simp
next
  case (Cons c css)
  show ?case
  proof (cases css)
    case Nil
    then show ?thesis by simp
  next
    case (Cons d ds)
    then have "concat css \<noteq> []" using Cons.prems by auto
    then show ?thesis using Cons.IH Cons.prems Cons
      by (simp add: join_append)
  qed
qed

lemma distinct_map_filter_head:
  assumes "distinct (map f (filter P (x # xs)))" "P x"
  shows "\<forall>l\<in>set xs. P l \<longrightarrow> f l \<noteq> f x"
proof (intro ballI impI)
  fix l assume "l \<in> set xs" "P l"
  then have "f l \<in> f ` set (filter P xs)" by simp
  moreover have "f x \<notin> f ` set (filter P xs)" using assms by simp
  ultimately show "f l \<noteq> f x" by auto
qed

lemma finish_joined:
  assumes "k \<noteq> []" "k \<notin> fst ` set fd" "cur \<noteq> []"
      and "\<forall>l\<in>set xs. is_header l \<longrightarrow>
             wf_header l \<and> extract_path l \<noteq> [] \<and> extract_path l \<notin> fst ` set fd \<and> extract_path l \<noteq> k"
      and "distinct (map extract_path (filter is_header xs))"
  shows "join nl (map snd (finish (foldl step (fd, Some k, cur) xs))) =
         join nl (map snd fd @ [join nl (cur @ xs)])"
  using assms
proof (induction xs arbitrary: fd k cur)
  case Nil
  then show ?case by (simp add: save_segment_truthy update_new)
next
  case (Cons x xs)
  show ?case
  proof (cases "is_header x")
    case False
    have "join nl (map snd (finish (foldl step (fd, Some k, cur @ [x]) xs))) =
         join nl (map snd fd @ [join nl ((cur @ [x]) @ xs)])"
      using Cons.prems False by (intro Cons.IH) auto
    then show ?thesis using False by (simp add: step_content)
  next
    case True
    let ?q = "extract_path x"
    let ?fd = "fd @ [(k, join nl cur)]"
    have x: "wf_header x" "?q \<noteq> []" "?q \<notin> fst ` set fd" "?q \<noteq> k"
      using Cons.prems(4) True by auto
    have "join nl (map snd (finish (foldl step (?fd, Some ?q, [x]) xs))) =
         join nl (map snd ?fd @ [join nl ([x] @ xs)])"
    proof (intro Cons.IH)
      show "?q \<noteq> []" by (rule x)
      show "?q \<notin> fst ` set ?fd" using x by auto
      show "[x] \<noteq> []" by simp
      have "\<forall>l\<in>set xs. is_header l \<longrightarrow> extract_path l \<noteq> ?q"
        using distinct_map_filter_head [OF Cons.prems(5) True] .
      then show "\<forall>l\<in>set xs. is_header l \<longrightarrow>
             wf_header l \<and> extract_path l \<noteq> [] \<and> extract_path l \<notin> fst ` set ?fd \<and> extract_path l \<noteq> ?q"
        using Cons.prems(4) by auto
      show "distinct (map extract_path (filter is_header xs))"
        using Cons.prems(5) True by simp
    qed
    moreover have "foldl step (fd, Some k, cur) (x # xs) = foldl step (?fd, Some ?q, [x]) xs"
      using True x Cons.prems(1,2,3) by (simp add: step_header save_segment_truthy update_new)
    moreover have "join nl (map snd ?fd @ [join nl ([x] @ xs)]) =
        join nl (map snd fd @ [join nl (cur @ x # xs)])"
      using Cons.prems(3) join_snoc2 [of nl "map snd fd" "join nl cur" "join nl (x # xs)"]
      by (simp add: join_append)
    ultimately show ?thesis by simp
  qed
qed

lemma split_lines_joined:
  assumes "xs \<noteq> [] \<longrightarrow> is_header (hd xs)"
      and "\<forall>l\<in>set xs. is_header l \<longrightarrow> 3 \<le> length (parts_of l) \<and> extract_path l \<noteq> []"
      and "distinct (map extract_path (filter is_header xs))"
  shows "join nl (map snd (split_lines xs)) = join nl xs"
proof (cases xs)
  case Nil
  then show ?thesis by (simp add: split_lines_def)
next
  case (Cons h ys)
  then have h: "is_header h" "wf_header h" "extract_path h \<noteq> []"
    using assms(1,2) by (auto simp: wf_header_def)
  have "join nl (map snd (finish (foldl step ([], Some (extract_path h), [h]) ys))) =
         join nl (map snd ([] :: file_diffs) @ [join nl ([h] @ ys)])"
  proof (intro finish_joined)
    have "\<forall>l\<in>set ys. is_header l \<longrightarrow> extract_path l \<noteq> extract_path h"
      using distinct_map_filter_head [of extract_path is_header h ys] assms(3) Cons h by simp
    then show "\<forall>l\<in>set ys. is_header l \<longrightarrow>
             wf_header l \<and> extract_path l \<noteq> [] \<and>
             extract_path l \<notin> fst ` set ([] :: file_diffs) \<and>
             extract_path l \<noteq> extract_path h"
      using assms(2) Cons by (auto simp: wf_header_def)
    show "distinct (map extract_path (filter is_header ys))"
      using assms(3) Cons h by simp
  qed (use h in simp_all)
  then show ?thesis using Cons h
    by (simp add: split_lines_def step_header)
qed

lemma lf_linebreak [simp]: "is_linebreak (CHR 0x0A)" "is_space (CHR 0x0A)"
  by (simp_all add: is_linebreak_def is_space_def)

lemma cr_linebreak [simp]: "is_linebreak (CHR 0x0D)"
  by (simp add: is_linebreak_def)

lemma splitlines_from_nonempty: "s \<noteq> [] \<Longrightarrow> splitlines_from cur s \<noteq> []"
  by (induction cur s rule: splitlines_from.induct) auto

lemma splitlines_from_line:
  "\<forall>c\<in>set l. \<not> is_linebreak c \<Longrightarrow>
     splitlines_from cur (l @ CHR 0x0A # s) = (cur @ l) # splitlines_from [] s"
proof (induction l arbitrary: cur)
  case Nil
  then show ?case by (cases s) simp_all
next
  case (Cons a l)
  then have a: "\<not> is_linebreak a" "a \<noteq> CHR 0x0D" by auto
  obtain d cs where dc: "l @ CHR 0x0A # s = d # cs"
    by (cases "l @ CHR 0x0A # s") auto
  have "splitlines_from cur (a # d # cs) = splitlines_from (cur @ [a]) (d # cs)"
    using a by simp
  then show ?case using Cons.IH [of "cur @ [a]"] Cons.prems dc by simp
qed

lemma splitlines_from_last:
  "\<forall>c\<in>set l. \<not> is_linebreak c \<Longrightarrow>
     splitlines_from cur l = (if cur @ l = [] then [] else [cur @ l])"
proof (induction l arbitrary: cur)
  case Nil
  then show ?case by simp
next
  case (Cons a l)
  then have a: "\<not> is_linebreak a" "a \<noteq> CHR 0x0D" by auto
  show ?case
  proof (cases l)
    case Nil
    then show ?thesis using a by simp
  next
    case (Cons d cs)
    have "splitlines_from cur (a # d # cs) = splitlines_from (cur @ [a]) (d # cs)"
      using a by simp
    then show ?thesis using Cons.IH [of "cur @ [a]"] Cons.prems Cons by simp
  qed
qed

lemma splitlines_join:
  "\<forall>l\<in>set L. \<forall>c\<in>set l. \<not> is_linebreak c \<Longrightarrow>
     splitlines (join nl L) = (if L \<noteq> [] \<and> last L = [] then butlast L else L)"
proof (induction L rule: induct_list012)
  case 1
  then show ?case by (simp add: splitlines_def)
next
  case (2 x)
  then show ?case by (simp add: splitlines_def splitlines_from_last)
next
  case (3 x y ys)
  have "splitlines (join nl (x # y # ys)) = x # splitlines (join nl (y # ys))"
    using "3.prems" splitlines_from_line [of x "[]" "join nl (y # ys)"]
    by (simp add: splitlines_def nl_def)
  moreover have "splitlines (join nl (y # ys)) =
      (if y # ys \<noteq> [] \<and> last (y # ys) = [] then butlast (y # ys) else y # ys)"
    using "3.IH"(2) "3.prems" by simp
  ultimately show ?case by simp
qed

lemma splitlines_from_brk:
  "\<not> (c = CHR 0x0D \<and> d = CHR 0x0A) \<Longrightarrow> is_linebreak c \<Longrightarrow>
     splitlines_from cur (c # d # cs) = cur # splitlines_from [] (d # cs)"
  by (cases "c = CHR 0x0D") simp_all

lemma splitlines_from_chr:
  "\<not> is_linebreak c \<Longrightarrow>
     splitlines_from cur (c # d # cs) = splitlines_from (cur @ [c]) (d # cs)"
  by (cases "c = CHR 0x0D") simp_all

lemma splitlines_from_lines_ok:
  "\<forall>c\<in>set cur. \<not> is_linebreak c \<Longrightarrow>
     \<forall>l\<in>set (splitlines_from cur s). \<forall>c\<in>set l. \<not> is_linebreak c"
proof (induction cur s rule: splitlines_from.induct)
  case (1 cur)
  then show ?case by simp
next
  case (2 cur c)
  then show ?case by simp
next
  case (3 cur c d cs)
  consider (crlf) "c = CHR 0x0D \<and> d = CHR 0x0A"
    | (brk) "\<not> (c = CHR 0x0D \<and> d = CHR 0x0A)" "is_linebreak c"
    | (chr) "\<not> (c = CHR 0x0D \<and> d = CHR 0x0A)" "\<not> is_linebreak c"
    by blast
  then show ?case
  proof cases
    case crlf
    then have "splitlines_from cur (c # d # cs) = cur # splitlines_from [] cs"
      by simp
    moreover have "\<forall>l\<in>set (splitlines_from [] cs). \<forall>c\<in>set l. \<not> is_linebreak c"
      using "3.IH"(1) [OF crlf] by simp
    ultimately show ?thesis using "3.prems" by simp
  next
    case brk
    then have "splitlines_from cur (c # d # cs) = cur # splitlines_from [] (d # cs)"
      by (rule splitlines_from_brk)
    moreover have "\<forall>l\<in>set (splitlines_from [] (d # cs)). \<forall>c\<in>set l. \<not> is_linebreak c"
      using "3.IH"(2) [OF brk] by simp
    ultimately show ?thesis using "3.prems" by simp
  next
    case chr
    have "splitlines_from cur (c # d # cs) = splitlines_from (cur @ [c]) (d # cs)"
      using chr(2) by (rule splitlines_from_chr)
    moreover have "\<forall>l\<in>set (splitlines_from (cur @ [c]) (d # cs)). \<forall>c\<in>set l. \<not> is_linebreak c"
      using "3.IH"(3) [OF chr] "3.prems" chr(2) by simp
    ultimately show ?thesis by simp
  qed
qed

lemma splitlines_lines_ok: "\<forall>l\<in>set (splitlines s). \<forall>c\<in>set l. \<not> is_linebreak c"
  unfolding splitlines_def by (rule splitlines_from_lines_ok) simp

lemma join_splitlines_from:
  "\<forall>c\<in>set s. is_linebreak c \<longrightarrow> c = CHR 0x0A \<Longrightarrow>
     join nl (splitlines_from cur s) = cur @ s \<or> join nl (splitlines_from cur s) @ nl = cur @ s"
proof (induction cur s rule: splitlines_from.induct)
  case (1 cur)
  then show ?case by simp
next
  case (2 cur c)
  then show ?case by (auto simp: nl_def)
next
  case (3 cur c d cs)
  have ncr: "\<not> (c = CHR 0x0D \<and> d = CHR 0x0A)"
    using "3.prems" by auto
  show ?case
  proof (cases "is_linebreak c")
    case True
    then have c: "c = CHR 0x0A" using "3.prems" by simp
    obtain l ls where L: "splitlines_from [] (d # cs) = l # ls"
      using splitlines_from_nonempty [of "d # cs" "[]"] by (cases "splitlines_from [] (d # cs)") auto
    have ih: "join nl (splitlines_from [] (d # cs)) = [] @ d # cs \<or>
              join nl (splitlines_from [] (d # cs)) @ nl = [] @ d # cs"
      using "3.IH"(2) [OF ncr True] "3.prems" by simp
    have "splitlines_from cur (c # d # cs) = cur # l # ls"
      using splitlines_from_brk [OF ncr True] L by simp
    then have "join nl (splitlines_from cur (c # d # cs)) = cur @ nl @ join nl (l # ls)"
      by simp
    then show ?thesis using ih L c by (auto simp: nl_def)
  next
    case False
    have "splitlines_from cur (c # d # cs) = splitlines_from (cur @ [c]) (d # cs)"
      using False by (rule splitlines_from_chr)
    then show ?thesis using "3.IH"(3) [OF ncr False] "3.prems" by simp
  qed
qed

lemma rstrip_nl: "rstrip (s @ nl) = rstrip s"
  by (simp add: rstrip_def nl_def)

lemma rstrip_join_splitlines:
  assumes "\<forall>c\<in>set D. is_linebreak c \<longrightarrow> c = CHR 0x0A"
  shows "rstrip (join nl (splitlines D)) = rstrip D"
proof -
  from join_splitlines_from [OF assms, of "[]"]
  have "join nl (splitlines D) = D \<or> join nl (splitlines D) @ nl = D"
    by (simp add: splitlines_def)
  then show ?thesis using rstrip_nl [of "join nl (splitlines D)"] by auto
qed

section \<open>Putting the segments together again\<close>

text \<open>
  C5 (as the claim states it, refuted).  The values of \<open>two_file_diff\<close> put one after
  the other lack the newline between the two segments, and the values of
  \<open>preamble_diff\<close>, joined with or without newlines, lack its first line, which comes
  before any header: neither gives the diff back, trailing whitespace apart.
\<close>

theorem segments_do_not_reconstruct_diff:
  "rstrip (concat (map snd (split_diff_by_file two_file_diff))) \<noteq> rstrip two_file_diff \<and>
   rstrip (join nl (map snd (split_diff_by_file preamble_diff))) \<noteq> rstrip preamble_diff \<and>
   rstrip (concat (map snd (split_diff_by_file preamble_diff))) \<noteq> rstrip preamble_diff"
  by code_simp

text \<open>
  C5 (amended).  Let the first line of a diff be a header line, let every header line have
  at least 3 tokens and give a non-empty name, and let these names be pairwise distinct.
  Then the values of \<open>split_diff_by_file\<close>, joined with newlines in their order, are the
  lines of the diff joined with newlines; and when the diff has no line boundary but the
  newline, they are the diff itself up to trailing whitespace.
\<close>

theorem segments_reconstruct_diff:
  assumes "splitlines D \<noteq> [] \<longrightarrow> is_header (hd (splitlines D))"
      and "\<forall>l\<in>set (splitlines D). is_header l \<longrightarrow> 3 \<le> length (parts_of l) \<and> extract_path l \<noteq> []"
      and "distinct (map extract_path (filter is_header (splitlines D)))"
  shows "join nl (map snd (split_diff_by_file D)) = join nl (splitlines D) \<and>
         ((\<forall>c\<in>set D. is_linebreak c \<longrightarrow> c = CHR 0x0A) \<longrightarrow>
            rstrip (join nl (map snd (split_diff_by_file D))) = rstrip D)"
proof -
  have "join nl (map snd (split_diff_by_file D)) = join nl (splitlines D)"
    unfolding split_diff_by_file_def using assms by (rule split_lines_joined)
  then show ?thesis using rstrip_join_splitlines [of D] by simp
qed

theorem segments_reconstruct_diff_witness:
  "splitlines two_file_diff = [''diff --git a/f b/f'', ''+1'', ''diff --git a/g b/g'', ''+2''] \<and>
   join nl (map snd (split_diff_by_file two_file_diff)) = join nl (splitlines two_file_diff) \<and>
   rstrip (join nl (map snd (split_diff_by_file two_file_diff))) = rstrip two_file_diff"
proof -
  have L: "splitlines two_file_diff = [''diff --git a/f b/f'', ''+1'', ''diff --git a/g b/g'', ''+2'']"
    by code_simp
  have a: "splitlines two_file_diff \<noteq> [] \<longrightarrow> is_header (hd (splitlines two_file_diff))"
    unfolding L by code_simp
  have b: "\<forall>l\<in>set (splitlines two_file_diff).
      is_header l \<longrightarrow> 3 \<le> length (parts_of l) \<and> extract_path l \<noteq> []"
    unfolding L by code_simp
  have c: "distinct (map extract_path (filter is_header (splitlines two_file_diff)))"
    unfolding L by code_simp
  have d: "\<forall>c\<in>set two_file_diff. is_linebreak c \<longrightarrow> c = CHR 0x0A"
    by code_simp
  show ?thesis
    using L d segments_reconstruct_diff [OF a b c] by blast
qed

section \<open>The segments of the loop, and filtering\<close>

lemma joined_simps [simp]:
  "joined [] = []" "joined ((k, c) # cs) = (k, join nl c) # joined cs"
  "joined (cs @ ds) = joined cs @ joined ds"
  "map fst (joined cs) = map fst cs"
  by (simp_all add: joined_def comp_def)

lemma joined_keys [simp]: "fst ` set (joined cs) = fst ` set cs"
  by (simp add: joined_def image_image)

lemma joined_update: "AList.update k (join nl c) (joined cs) = joined (AList.update k c cs)"
  by (induction cs) (auto simp: joined_def)

lemma joined_filter:
  "filter (\<lambda>kv. P (fst kv)) (joined cs) = joined (filter (\<lambda>kc. P (fst kc)) cs)"
  by (induction cs) (auto simp: joined_def)

lemma chunks_update:
  "\<forall>kc\<in>set cs. chunk_ok Q kc \<Longrightarrow> chunk_ok Q (k, c) \<Longrightarrow>
     \<forall>kc\<in>set (AList.update k c cs). chunk_ok Q kc"
  using set_update_subset [of k c cs] by auto

lemma save_joined:
  assumes "\<forall>kc\<in>set cs. chunk_ok Q kc" "state_ok Q cf ls"
  shows "\<exists>cs'. save_segment (joined cs) cf ls = joined cs' \<and> (\<forall>kc\<in>set cs'. chunk_ok Q kc)"
proof (cases "\<exists>k. cf = Some k \<and> k \<noteq> []")
  case True
  then obtain k where k: "cf = Some k" "k \<noteq> []" by blast
  then have ok: "chunk_ok Q (k, ls)" using assms(2) by (simp add: state_ok_def)
  then have "ls \<noteq> []" by (simp add: chunk_ok_def)
  then have "save_segment (joined cs) cf ls = joined (AList.update k ls cs)"
    using k by (simp add: save_segment_truthy joined_update)
  then show ?thesis using chunks_update [OF assms(1) ok] by blast
next
  case False
  then have "cf = None \<or> cf = Some []" by (cases cf) auto
  then have "save_segment (joined cs) cf ls = joined cs" by auto
  then show ?thesis using assms(1) by blast
qed

lemma state_ok_header:
  assumes "state_ok Q cf ls" "is_header x" "Q x"
  shows "state_ok Q (if wf_header x then Some (extract_path x) else cf) [x]"
proof (cases "wf_header x")
  case True
  then show ?thesis using assms by (simp add: state_ok_def chunk_ok_def)
next
  case False
  then show ?thesis using assms by (auto simp: state_ok_def chunk_ok_def split: option.splits)
qed

lemma state_ok_content:
  assumes "state_ok Q cf ls" "\<not> is_header x" "Q x"
  shows "state_ok Q cf (ls @ [x])"
  using assms by (auto simp: state_ok_def chunk_ok_def split: option.splits)

lemma finish_chunks:
  assumes "\<forall>kc\<in>set cs. chunk_ok Q kc" "state_ok Q cf ls" "\<forall>l\<in>set xs. Q l"
  shows "\<exists>cs'. finish (foldl step (joined cs, cf, ls) xs) = joined cs' \<and>
               (\<forall>kc\<in>set cs'. chunk_ok Q kc)"
  using assms
proof (induction xs arbitrary: cs cf ls)
  case Nil
  then show ?case using save_joined [of cs Q cf ls] by simp
next
  case (Cons x xs)
  then have qx: "Q x" and qxs: "\<forall>l\<in>set xs. Q l" by auto
  show ?case
  proof (cases "is_header x")
    case True
    from save_joined [OF Cons.prems(1,2)] obtain cs1 where
      cs1: "save_segment (joined cs) cf ls = joined cs1" "\<forall>kc\<in>set cs1. chunk_ok Q kc"
      by blast
    from Cons.IH [OF cs1(2) state_ok_header [OF Cons.prems(2) True qx] qxs]
    show ?thesis using True cs1(1) by (simp add: step_header)
  next
    case False
    from Cons.IH [OF Cons.prems(1) state_ok_content [OF Cons.prems(2) False qx] qxs]
    show ?thesis using False by (simp add: step_content)
  qed
qed

lemma split_lines_chunks:
  assumes "\<forall>l\<in>set xs. Q l"
  shows "\<exists>cs. split_lines xs = joined cs \<and> (\<forall>kc\<in>set cs. chunk_ok Q kc) \<and> distinct (map fst cs)"
proof -
  from finish_chunks [of "[]" Q None "[]" xs] assms obtain cs where
    cs: "split_lines xs = joined cs" "\<forall>kc\<in>set cs. chunk_ok Q kc"
    by (auto simp: split_lines_def state_ok_def)
  have "distinct (map fst (split_lines xs))"
    unfolding split_lines_def by (rule finish_distinct) simp
  then have "distinct (map fst cs)" using cs(1) by simp
  with cs show ?thesis by blast
qed

lemma filter_fold:
  "distinct (map fst (acc @ fd)) \<Longrightarrow>
     foldl (filter_step ds) (acc, b) fd =
       (acc @ filter (\<lambda>kv. fst kv \<notin> set ds) fd, b \<or> (\<exists>kv\<in>set fd. fst kv \<in> set ds))"
proof (induction fd arbitrary: acc b)
  case Nil
  then show ?case by simp
next
  case (Cons kv fd)
  obtain k v where kv: "kv = (k, v)" by (cases kv)
  show ?case
  proof (cases "k \<in> set ds")
    case True
    have "distinct (map fst (acc @ fd))" using Cons.prems by simp
    from Cons.IH [OF this, of True] show ?thesis
      using True kv by simp
  next
    case False
    have "k \<notin> fst ` set acc" using Cons.prems kv by auto
    then have u: "AList.update k v acc = acc @ [(k, v)]" by (rule update_new)
    have "distinct (map fst ((acc @ [(k, v)]) @ fd))" using Cons.prems kv by simp
    from Cons.IH [OF this, of b] show ?thesis
      using False kv u by simp
  qed
qed

lemma join_joined:
  "\<forall>kc\<in>set cs. snd kc \<noteq> [] \<Longrightarrow>
     join nl (map snd (joined cs)) = join nl (concat (map snd cs))"
proof -
  assume a: "\<forall>kc\<in>set cs. snd kc \<noteq> []"
  have "map snd (joined cs) = map (join nl) (map snd cs)"
    by (simp add: joined_def comp_def)
  moreover have "\<forall>c\<in>set (map snd cs). c \<noteq> []" using a by auto
  ultimately show ?thesis using join_concat [of "map snd cs" nl] by simp
qed


lemma header_nonempty: "is_header l \<Longrightarrow> l \<noteq> []"
  by (auto simp: is_header_def startswith_def)

lemma chunk_header_key:
  assumes "\<forall>kc\<in>set cs. chunk_ok Q kc" "l \<in> set (concat (map snd cs))" "wf_header l"
  shows "extract_path l \<in> fst ` set cs"
proof -
  from assms(2) obtain k c where kc: "(k, c) \<in> set cs" "l \<in> set c" by auto
  then have ok: "chunk_ok Q (k, c)" using assms(1) by blast
  then have c: "c = hd c # tl c" by (simp add: chunk_ok_def)
  have "is_header l" using assms(3) by (simp add: wf_header_def)
  then have "l \<notin> set (tl c)" using ok by (auto simp: chunk_ok_def)
  then have "l = hd c" using kc(2) c by (metis set_ConsD)
  then have "extract_path l = k" using ok assms(3) by (simp add: chunk_ok_def)
  then show ?thesis using kc(1) by force
qed

lemma key_paths_chunks:
  assumes "\<forall>kc\<in>set cs. chunk_ok Q kc" "set L \<subseteq> set (concat (map snd cs))"
  shows "set (key_paths L) \<subseteq> fst ` set cs"
proof
  fix p assume "p \<in> set (key_paths L)"
  then obtain l where l: "l \<in> set L" "wf_header l" "p = extract_path l"
    by (auto simp: key_paths_def)
  then have "l \<in> set (concat (map snd cs))" using assms(2) by blast
  from chunk_header_key [OF assms(1) this l(2)] show "p \<in> fst ` set cs" using l(3) by simp
qed

lemma finish_of_chunks:
  assumes "distinct (map fst (acc @ (k, cur) # rest))" "k \<noteq> []" "cur \<noteq> []"
      and "\<forall>kc\<in>set rest. chunk_ok Q kc \<and> wf_header (hd (snd kc))"
  shows "finish (foldl step (joined acc, Some k, cur) (concat (map snd rest))) =
         joined (acc @ (k, cur) # rest)"
  using assms
proof (induction rest arbitrary: acc k cur)
  case Nil
  have "k \<notin> fst ` set (joined acc)" using Nil.prems(1) by auto
  then show ?case using Nil.prems(2,3)
    by (simp add: save_segment_truthy update_new)
next
  case (Cons qc rest)
  obtain q c where qc: "qc = (q, c)" by (cases qc)
  then have ok: "chunk_ok Q (q, c)" "wf_header (hd c)" using Cons.prems(4) by auto
  then obtain h body where c: "c = h # body" by (cases c) (auto simp: chunk_ok_def)
  have h: "is_header h" "wf_header h" "extract_path h = q" "q \<noteq> []"
    and body: "\<forall>l\<in>set body. \<not> is_header l"
    using ok c by (auto simp: chunk_ok_def)
  have knew: "k \<notin> fst ` set (joined acc)" using Cons.prems(1) by auto
  have "foldl step (joined acc, Some k, cur) (h # body) =
      (joined (acc @ [(k, cur)]), Some q, h # body)"
    using h knew Cons.prems(2,3) foldl_step_content [OF body, of "joined (acc @ [(k, cur)])" "Some q" "[h]"]
    by (simp add: step_header save_segment_truthy update_new)
  then have "finish (foldl step (joined acc, Some k, cur) (concat (map snd (qc # rest)))) =
      finish (foldl step (joined (acc @ [(k, cur)]), Some q, c) (concat (map snd rest)))"
    using qc c by simp
  also have "\<dots> = joined ((acc @ [(k, cur)]) @ (q, c) # rest)"
  proof (rule Cons.IH)
    show "distinct (map fst ((acc @ [(k, cur)]) @ (q, c) # rest))"
      using Cons.prems(1) qc by simp
    show "q \<noteq> []" by (rule h)
    show "c \<noteq> []" using c by simp
    show "\<forall>kc\<in>set rest. chunk_ok Q kc \<and> wf_header (hd (snd kc))"
      using Cons.prems(4) by simp
  qed
  finally show ?case using qc by simp
qed

lemma split_lines_of_chunks:
  assumes "distinct (map fst cs)" "\<forall>kc\<in>set cs. chunk_ok Q kc \<and> wf_header (hd (snd kc))"
  shows "split_lines (concat (map snd cs)) = joined cs"
proof (cases cs)
  case Nil
  then show ?thesis by (simp add: split_lines_def)
next
  case (Cons kc rest)
  obtain k c where kc: "kc = (k, c)" by (cases kc)
  then have ok: "chunk_ok Q (k, c)" "wf_header (hd c)" using assms(2) Cons by auto
  then obtain h body where c: "c = h # body" by (cases c) (auto simp: chunk_ok_def)
  have h: "is_header h" "wf_header h" "extract_path h = k" "k \<noteq> []"
    and body: "\<forall>l\<in>set body. \<not> is_header l"
    using ok c by (auto simp: chunk_ok_def)
  have "foldl step ([], None, []) (h # body) = (joined [], Some k, h # body)"
    using h foldl_step_content [OF body, of "[]" "Some k" "[h]"]
    by (simp add: step_header)
  then have "split_lines (concat (map snd cs)) =
      finish (foldl step (joined [], Some k, c) (concat (map snd rest)))"
    using Cons kc c by (simp add: split_lines_def)
  also have "\<dots> = joined ([] @ (k, c) # rest)"
  proof (rule finish_of_chunks)
    show "distinct (map fst ([] @ (k, c) # rest))" using assms(1) Cons kc by simp
    show "k \<noteq> []" by (rule h)
    show "c \<noteq> []" using c by simp
    show "\<forall>kc\<in>set rest. chunk_ok Q kc \<and> wf_header (hd (snd kc))" using assms(2) Cons by simp
  qed
  finally show ?thesis using Cons kc by simp
qed


lemma preprocess_diff_eq:
  "preprocess_diff D S =
     (join nl (map snd (filter (\<lambda>kv. fst kv \<notin> set (or_default S)) (split_diff_by_file D))),
      \<exists>kv\<in>set (split_diff_by_file D). fst kv \<in> set (or_default S))"
proof -
  have "distinct (map fst (split_diff_by_file D))"
    unfolding split_diff_by_file_def split_lines_def by (rule finish_distinct) simp
  then have "distinct (map fst ([] @ split_diff_by_file D))" by simp
  from filter_fold [OF this, of "or_default S" False] show ?thesis
    by (simp add: preprocess_diff_def Let_def)
qed

lemma first_pass_chunks:
  assumes "\<forall>l\<in>set (splitlines D). Q l"
  shows "\<exists>cs. fst (preprocess_diff D S) = join nl (concat (map snd cs)) \<and>
              (\<forall>kc\<in>set cs. chunk_ok Q kc) \<and> distinct (map fst cs) \<and>
              (\<forall>kc\<in>set cs. fst kc \<notin> set (or_default S))"
proof -
  from split_lines_chunks [OF assms] obtain cs1 where
    cs1: "split_lines (splitlines D) = joined cs1" "\<forall>kc\<in>set cs1. chunk_ok Q kc"
      "distinct (map fst cs1)"
    by blast
  let ?cs = "filter (\<lambda>kc. fst kc \<notin> set (or_default S)) cs1"
  have ok: "\<forall>kc\<in>set ?cs. chunk_ok Q kc" using cs1(2) by simp
  then have ne: "\<forall>kc\<in>set ?cs. snd kc \<noteq> []" by (simp add: chunk_ok_def)
  have "fst (preprocess_diff D S) = join nl (map snd (joined ?cs))"
    using cs1(1) joined_filter [of "\<lambda>k. k \<notin> set (or_default S)" cs1]
    by (simp add: preprocess_diff_eq split_diff_by_file_def)
  then have "fst (preprocess_diff D S) = join nl (concat (map snd ?cs))"
    using join_joined [OF ne] by simp
  moreover have "distinct (map fst ?cs)" using cs1(3) by (simp add: distinct_map_filter)
  moreover have "\<forall>kc\<in>set ?cs. fst kc \<notin> set (or_default S)" by simp
  ultimately show ?thesis using ok by blast
qed

lemma chunk_lines_ok:
  "\<forall>kc\<in>set cs. chunk_ok line_ok kc \<Longrightarrow>
     \<forall>l\<in>set (concat (map snd cs)). \<forall>c\<in>set l. \<not> is_linebreak c"
  by (auto simp: chunk_ok_def line_ok_def)

lemma second_pass_flag:
  assumes "\<forall>kc\<in>set cs. chunk_ok line_ok kc" "\<forall>kc\<in>set cs. fst kc \<notin> set (or_default S)"
  shows "\<not> snd (preprocess_diff (join nl (concat (map snd cs))) S)"
proof -
  let ?L = "concat (map snd cs)"
  have "splitlines (join nl ?L) = (if ?L \<noteq> [] \<and> last ?L = [] then butlast ?L else ?L)"
    using chunk_lines_ok [OF assms(1)] by (rule splitlines_join)
  then have sub: "set (splitlines (join nl ?L)) \<subseteq> set ?L"
    by (auto dest: in_set_butlastD)
  have "fst ` set (split_lines (splitlines (join nl ?L))) = set (key_paths (splitlines (join nl ?L)))"
    unfolding split_lines_def using finish_keys [of None "[]" "[]"] by simp
  also have "\<dots> \<subseteq> fst ` set cs"
    using assms(1) sub by (rule key_paths_chunks)
  finally have keys: "fst ` set (split_diff_by_file (join nl ?L)) \<subseteq> fst ` set cs"
    by (simp add: split_diff_by_file_def)
  have "\<forall>kv\<in>set (split_diff_by_file (join nl ?L)). fst kv \<notin> set (or_default S)"
  proof
    fix kv assume "kv \<in> set (split_diff_by_file (join nl ?L))"
    then have "fst kv \<in> fst ` set cs" using keys by blast
    then obtain kc where "kc \<in> set cs" "fst kv = fst kc" by blast
    then show "fst kv \<notin> set (or_default S)" using assms(2) by simp
  qed
  then show ?thesis by (simp add: preprocess_diff_eq)
qed

lemma join_ends_with_nl:
  assumes "L \<noteq> []" "hd L \<noteq> []" "last L = []"
  shows "join nl L \<noteq> [] \<and> last (join nl L) = CHR 0x0A"
proof -
  have "butlast L \<noteq> []" using assms by (cases L) auto
  moreover have "L = butlast L @ [last L]" using assms(1) by simp
  ultimately have "join nl L = join nl (butlast L) @ nl @ join nl [last L]"
    using join_append [of "butlast L" "[last L]" nl] by simp
  then show ?thesis using assms(3) by (simp add: nl_def)
qed

lemma second_pass_text:
  assumes ok: "\<forall>kc\<in>set cs. chunk_ok line_wf kc" and d: "distinct (map fst cs)"
      and keep: "\<forall>kc\<in>set cs. fst kc \<notin> set (or_default S)"
      and F: "F = join nl (concat (map snd cs))" and e: "F = [] \<or> last F \<noteq> CHR 0x0A"
  shows "preprocess_diff F S = (F, False)"
proof -
  let ?L = "concat (map snd cs)"
  have ok0: "\<forall>kc\<in>set cs. chunk_ok line_ok kc"
    using ok by (auto simp: chunk_ok_def line_wf_def)
  have okw: "\<forall>kc\<in>set cs. chunk_ok line_wf kc \<and> wf_header (hd (snd kc))"
    using ok by (auto simp: chunk_ok_def line_wf_def)
  have ne: "\<forall>kc\<in>set cs. snd kc \<noteq> []" using ok by (simp add: chunk_ok_def)
  have hdL: "hd ?L \<noteq> []" if "?L \<noteq> []"
  proof -
    from that obtain kc rest where cs: "cs = kc # rest" by (cases cs) auto
    then have "snd kc \<noteq> []" "is_header (hd (snd kc))" using ok by (auto simp: chunk_ok_def)
    then show ?thesis using cs by (simp add: header_nonempty)
  qed
  have nolast: "\<not> (?L \<noteq> [] \<and> last ?L = [])"
    using join_ends_with_nl [of ?L] hdL e F by auto
  have "splitlines F = (if ?L \<noteq> [] \<and> last ?L = [] then butlast ?L else ?L)"
    unfolding F using chunk_lines_ok [OF ok0] by (rule splitlines_join)
  then have "splitlines F = ?L" using if_not_P [OF nolast] by (simp only:)
  then have fd: "split_diff_by_file F = joined cs"
    using split_lines_of_chunks [OF d okw] by (simp add: split_diff_by_file_def)
  have "filter (\<lambda>kv. fst kv \<notin> set (or_default S)) (joined cs) = joined cs"
    using keep by (simp add: joined_def filter_map comp_def)
  moreover have "\<forall>kv\<in>set (joined cs). fst kv \<notin> set (or_default S)"
    using keep by (auto simp: joined_def)
  ultimately have "preprocess_diff F S = (join nl (map snd (joined cs)), False)"
    using fd by (simp add: preprocess_diff_eq)
  then show ?thesis using join_joined [OF ne] F by simp
qed

section \<open>Filtering twice\<close>

text \<open>
  C6 (as the claim states it, refuted).  The filtered text of \<open>malformed_tail_diff\<close>
  is the segment of its malformed header, kept under the key \<open>f\<close>.  Filtered again,
  that text has no header that gives a name: the result is the empty text, not the
  filtered text unchanged.
\<close>

theorem preprocess_again_changes_text:
  "fst (preprocess_diff malformed_tail_diff None) = ''diff --git'' @ nl @ ''+3'' \<and>
   preprocess_diff (fst (preprocess_diff malformed_tail_diff None)) None = ([], False) \<and>
   preprocess_diff (fst (preprocess_diff malformed_tail_diff None)) None \<noteq>
     (fst (preprocess_diff malformed_tail_diff None), False)"
  by code_simp

text \<open>
  C6 (amended).  Filtering the filtered text again with the same noise files never
  reports an omission.  It returns the filtered text unchanged when every header line of
  the diff has at least 3 tokens and the filtered text does not end with a newline.
\<close>

theorem preprocess_again:
  "\<not> snd (preprocess_diff (fst (preprocess_diff D S)) S) \<and>
   ((\<forall>l\<in>set (splitlines D). is_header l \<longrightarrow> 3 \<le> length (parts_of l)) \<and>
    (fst (preprocess_diff D S) = [] \<or> last (fst (preprocess_diff D S)) \<noteq> CHR 0x0A) \<longrightarrow>
      preprocess_diff (fst (preprocess_diff D S)) S = (fst (preprocess_diff D S), False))"
proof (intro conjI impI)
  have "\<forall>l\<in>set (splitlines D). line_ok l"
    using splitlines_lines_ok [of D] by (simp add: line_ok_def)
  from first_pass_chunks [OF this, of S] obtain cs where
    "fst (preprocess_diff D S) = join nl (concat (map snd cs))"
    "\<forall>kc\<in>set cs. chunk_ok line_ok kc" "\<forall>kc\<in>set cs. fst kc \<notin> set (or_default S)"
    by blast
  then show "\<not> snd (preprocess_diff (fst (preprocess_diff D S)) S)"
    using second_pass_flag [of cs S] by simp
next
  assume a: "(\<forall>l\<in>set (splitlines D). is_header l \<longrightarrow> 3 \<le> length (parts_of l)) \<and>
    (fst (preprocess_diff D S) = [] \<or> last (fst (preprocess_diff D S)) \<noteq> CHR 0x0A)"
  then have "\<forall>l\<in>set (splitlines D). line_wf l"
    using splitlines_lines_ok [of D] by (simp add: line_wf_def line_ok_def wf_header_def)
  from first_pass_chunks [OF this, of S] obtain cs where
    cs: "fst (preprocess_diff D S) = join nl (concat (map snd cs))"
    "\<forall>kc\<in>set cs. chunk_ok line_wf kc" "distinct (map fst cs)"
    "\<forall>kc\<in>set cs. fst kc \<notin> set (or_default S)"
    by blast
  from a have e: "fst (preprocess_diff D S) = [] \<or> last (fst (preprocess_diff D S)) \<noteq> CHR 0x0A"
    by simp
  show "preprocess_diff (fst (preprocess_diff D S)) S = (fst (preprocess_diff D S), False)"
    using cs(2) cs(3) cs(4) cs(1) e by (rule second_pass_text)
qed

theorem preprocess_again_witness:
  "fst (preprocess_diff noise_diff None) =
     ''diff --git a/a.py b/a.py'' @ nl @ ''+1'' @ nl @ ''diff --git a/b.py b/b.py'' @ nl @ ''+3'' \<and>
   snd (preprocess_diff noise_diff None) \<and>
   preprocess_diff (fst (preprocess_diff noise_diff None)) None =
     (fst (preprocess_diff noise_diff None), False)"
proof -
  have F: "fst (preprocess_diff noise_diff None) =
     ''diff --git a/a.py b/a.py'' @ nl @ ''+1'' @ nl @ ''diff --git a/b.py b/b.py'' @ nl @ ''+3''"
    by code_simp
  have n: "snd (preprocess_diff noise_diff None)"
    by code_simp
  have h1: "\<forall>l\<in>set (splitlines noise_diff). is_header l \<longrightarrow> 3 \<le> length (parts_of l)"
    by code_simp
  have h2: "fst (preprocess_diff noise_diff None) = [] \<or>
      last (fst (preprocess_diff noise_diff None)) \<noteq> CHR 0x0A"
    unfolding F by (simp add: nl_def)
  show ?thesis
    using F n h1 h2 preprocess_again [of noise_diff None] by blast
qed

end
